theory Spec2Isabelle
  imports Main "HOL-Library.Sublist"
begin

section \<open>The certificate-pinning patcher of \<open>src/tasks/create-netsec-config.ts\<close>\<close>

text \<open>
  The patcher is \<open>processSmaliFile\<close> (lines 93 to 148 of the file) with the constants it
  uses (lines 29 to 56). It reads a Smali file, leaves it alone unless it implements
  \<open>X509TrustManager\<close>, replaces the bodies of three methods and writes the file back
  when something was replaced.

  The source works on JavaScript strings. A string is modelled as a \<open>string\<close>
  (a list of \<open>char\<close>), one \<open>char\<close> standing for one code unit; the texts the
  patterns look for are ASCII. The host enters as the value of \<open>os.type()\<close>. The file
  system is a map from paths to contents together with the paths that cannot be written;
  reading a missing file and writing a protected one are the two errors.
\<close>

subsection \<open>Constants\<close>

text \<open>
  \<open>INTERFACE_LINE\<close>, \<open>METHOD_SIGNATURES\<close>, \<open>RETURN_VOID_FIX\<close> and
  \<open>RETURN_EMPTY_ARRAY_FIX\<close> are the source's; the three signatures and the three
  literal parts of the pattern have names of their own here.
\<close>

abbreviation LF :: char where "LF \<equiv> CHR 0x0A"
abbreviation CR :: char where "CR \<equiv> CHR 0x0D"

definition INTERFACE_LINE :: string where
  "INTERFACE_LINE = ''.implements Ljavax/net/ssl/X509TrustManager;''"

definition SIG_CLIENT :: string where
  "SIG_CLIENT = ''checkClientTrusted([Ljava/security/cert/X509Certificate;Ljava/lang/String;)V''"

definition SIG_SERVER :: string where
  "SIG_SERVER = ''checkServerTrusted([Ljava/security/cert/X509Certificate;Ljava/lang/String;)V''"

definition SIG_ISSUERS :: string where
  "SIG_ISSUERS = ''getAcceptedIssuers()[Ljava/security/cert/X509Certificate;''"

definition METHOD_SIGNATURES :: "string list" where
  "METHOD_SIGNATURES = [SIG_CLIENT, SIG_SERVER, SIG_ISSUERS]"

definition RETURN_VOID_FIX :: "string list" where
  "RETURN_VOID_FIX = [''.locals 0'', ''return-void'']"

definition RETURN_EMPTY_ARRAY_FIX :: "string list" where
  "RETURN_EMPTY_ARRAY_FIX =
     [''.locals 1'',
      ''const/4 v0, 0x0'',
      ''new-array v0, v0, [Ljava/security/cert/X509Certificate;'',
      ''return-object v0'']"

definition METHOD_PUBLIC :: string where
  "METHOD_PUBLIC = ''.method public ''"

definition FINAL :: string where
  "FINAL = ''final ''"

definition END_METHOD :: string where
  "END_METHOD = ''.end method''"

subsection \<open>String primitives\<close>

text \<open>\<open>strip_prefix p s\<close>: the rest of \<open>s\<close> after the literal \<open>p\<close>, when \<open>s\<close> starts with it.\<close>

fun strip_prefix :: "string \<Rightarrow> string \<Rightarrow> string option" where
  "strip_prefix [] s = Some s"
| "strip_prefix (p # ps) [] = None"
| "strip_prefix (p # ps) (c # cs) = (if p = c then strip_prefix ps cs else None)"

text \<open>\<open>String.prototype.includes\<close>: the pattern starts at some index of the text.\<close>

fun includes_str :: "string \<Rightarrow> string \<Rightarrow> bool" where
  "includes_str [] p = (p = [])"
| "includes_str (c # cs) p = (strip_prefix p (c # cs) \<noteq> None \<or> includes_str cs p)"

text \<open>
  \<open>split('\n')\<close>: the pieces between line feeds; the empty string gives one empty piece.
  A character that is no line feed goes in front of the first piece of the rest (there
  always is one).
\<close>

fun split_lines :: "string \<Rightarrow> string list" where
  "split_lines [] = [[]]"
| "split_lines (c # cs) =
     (if c = LF then [] # split_lines cs
      else (case split_lines cs of
              [] \<Rightarrow> [[c]]
            | line # lines \<Rightarrow> (c # line) # lines))"

text \<open>\<open>join('\n')\<close>.\<close>

fun join_lines :: "string list \<Rightarrow> string" where
  "join_lines [] = []"
| "join_lines [l] = l"
| "join_lines (l # ls) = l @ LF # join_lines ls"

text \<open>
  \<open>trimEnd\<close> removes the white space and line terminators at the end of a string:
  tab, line feed, vertical tab, form feed, carriage return, space and no-break space
  are the ones among the code units a \<open>char\<close> stands for.
\<close>

definition is_space :: "char \<Rightarrow> bool" where
  "is_space c \<longleftrightarrow>
     c = CHR 0x09 \<or> c = CHR 0x0A \<or> c = CHR 0x0B \<or> c = CHR 0x0C \<or> c = CHR 0x0D
     \<or> c = CHR 0x20 \<or> c = CHR 0xA0"

definition trimEnd :: "string \<Rightarrow> string" where
  "trimEnd s = rev (dropWhile is_space (rev s))"

text \<open>\<open>line.replace(/^    /, '')\<close>: four leading spaces are dropped when they are there.\<close>

definition strip_indent :: "string \<Rightarrow> string" where
  "strip_indent line = (case strip_prefix ''    '' line of Some r \<Rightarrow> r | None \<Rightarrow> line)"

text \<open>\<open>replace(/\r\n/g, '\n')\<close> and \<open>replace(/\n/g, '\r\n')\<close>.\<close>

fun crlf_to_lf :: "string \<Rightarrow> string" where
  "crlf_to_lf (c # d # cs) =
     (if c = CR \<and> d = LF then LF # crlf_to_lf cs else c # crlf_to_lf (d # cs))"
| "crlf_to_lf cs = cs"

fun lf_to_crlf :: "string \<Rightarrow> string" where
  "lf_to_crlf [] = []"
| "lf_to_crlf (c # cs) = (if c = LF then CR # LF # lf_to_crlf cs else c # lf_to_crlf cs)"

subsection \<open>The method patterns\<close>

text \<open>
  One pattern per signature:
  \<open>(\.method public (?:final )?SIG)\n([^]+?)\n(\.end method)\<close>, where
  \<open>escapeStringRegexp\<close> makes the signature match itself, character by character.

  \<open>scan_end\<close> is the lazy quantifier once its first character is taken: it stops at the
  first index where \<open>\n.end method\<close> follows, and fails when there is none.
  \<open>lazy_body\<close> is \<open>([^]+?)\n(\.end method)\<close>: at least one character, of any kind.
  The result is the body, the closing line and the text after the match.
\<close>

fun scan_end :: "string \<Rightarrow> (string \<times> string \<times> string) option" where
  "scan_end [] = None"
| "scan_end (c # cs) =
     (case strip_prefix (LF # END_METHOD) (c # cs) of
        Some rest \<Rightarrow> Some ([], END_METHOD, rest)
      | None \<Rightarrow>
          (case scan_end cs of
             None \<Rightarrow> None
           | Some (body, closingLine, rest) \<Rightarrow> Some (c # body, closingLine, rest)))"

definition lazy_body :: "string \<Rightarrow> (string \<times> string \<times> string) option" where
  "lazy_body s =
     (case s of
        [] \<Rightarrow> None
      | c # cs \<Rightarrow>
          (case scan_end cs of
             None \<Rightarrow> None
           | Some (body, closingLine, rest) \<Rightarrow> Some (c # body, closingLine, rest)))"

text \<open>
  \<open>match_tail\<close>: what follows the optional group, with the opening line read so far.
  \<open>match_at\<close>: the pattern at the start of the text. The optional group is greedy: the
  alternative with \<open>final \<close> is tried first, the one without it when that fails.
\<close>

definition match_tail ::
  "string \<Rightarrow> string \<Rightarrow> string \<Rightarrow> (string \<times> string \<times> string \<times> string) option" where
  "match_tail opening signature s =
     (case strip_prefix signature s of
        None \<Rightarrow> None
      | Some s1 \<Rightarrow>
          (case strip_prefix [LF] s1 of
             None \<Rightarrow> None
           | Some s2 \<Rightarrow>
               (case lazy_body s2 of
                  None \<Rightarrow> None
                | Some (body, closingLine, rest) \<Rightarrow>
                    Some (opening @ signature, body, closingLine, rest))))"

definition match_at ::
  "string \<Rightarrow> string \<Rightarrow> (string \<times> string \<times> string \<times> string) option" where
  "match_at signature s =
     (case strip_prefix METHOD_PUBLIC s of
        None \<Rightarrow> None
      | Some s1 \<Rightarrow>
          (case (case strip_prefix FINAL s1 of
                   None \<Rightarrow> None
                 | Some s2 \<Rightarrow> match_tail (METHOD_PUBLIC @ FINAL) signature s2) of
             Some m \<Rightarrow> Some m
           | None \<Rightarrow> match_tail METHOD_PUBLIC signature s1))"

subsection \<open>The replacement\<close>

text \<open>The callback given to \<open>replace\<close>: the text that takes the place of one match.\<close>

definition patch_method :: "string \<Rightarrow> string \<Rightarrow> string \<Rightarrow> string" where
  "patch_method openingLine body closingLine =
     (let bodyLines = map strip_indent (split_lines body);
          fixLines = (if includes_str openingLine ''getAcceptedIssuers''
                      then RETURN_EMPTY_ARRAY_FIX else RETURN_VOID_FIX);
          patchedBodyLines =
            [''# inserted by apk-mitm to disable certificate pinning'']
            @ fixLines
            @ ['''',
               ''# commented out by apk-mitm to disable old method body'',
               ''# '']
            @ map (\<lambda>line. ''# '' @ line) bodyLines
      in join_lines
           (map trimEnd
              ([openingLine] @ map (\<lambda>line. ''    '' @ line) patchedBodyLines @ [closingLine])))"

lemma strip_prefix_Some: "strip_prefix p s = Some r \<longleftrightarrow> s = p @ r"
  by (induction p s rule: strip_prefix.induct) auto

lemma strip_prefix_None: "strip_prefix p s = None \<longleftrightarrow> \<not> prefix p s"
  by (induction p s rule: strip_prefix.induct) auto

lemma scan_end_Some:
  "scan_end s = Some (b, cl, r) \<Longrightarrow> s = b @ LF # END_METHOD @ r \<and> cl = END_METHOD"
proof (induction s arbitrary: b)
  case Nil
  then show ?case by simp
next
  case (Cons c cs)
  show ?case
  proof (cases "strip_prefix (LF # END_METHOD) (c # cs)")
    case (Some rest)
    from Some have "c # cs = (LF # END_METHOD) @ rest"
      by (simp only: strip_prefix_Some)
    moreover from Some Cons.prems have "b = []" "cl = END_METHOD" "r = rest"
      by simp_all
    ultimately show ?thesis by simp
  next
    case None
    with Cons.prems obtain b' where b': "scan_end cs = Some (b', cl, r)" "b = c # b'"
      by (auto split: option.splits)
    from Cons.IH [OF b'(1)] b'(2) show ?thesis by simp
  qed
qed

lemma lazy_body_Some:
  "lazy_body s = Some (b, cl, r) \<Longrightarrow> s = b @ LF # END_METHOD @ r \<and> cl = END_METHOD \<and> b \<noteq> []"
  by (auto simp: lazy_body_def split: list.splits option.splits dest: scan_end_Some)

lemma match_tail_Some:
  "match_tail opening signature s = Some (h, b, cl, r) \<Longrightarrow>
     h = opening @ signature \<and> s = signature @ LF # b @ LF # END_METHOD @ r
     \<and> cl = END_METHOD \<and> b \<noteq> []"
  by (auto simp: match_tail_def strip_prefix_Some split: option.splits dest: lazy_body_Some)

lemma match_at_Some:
  "match_at signature s = Some (h, b, cl, r) \<Longrightarrow>
     (h = METHOD_PUBLIC @ signature \<or> h = METHOD_PUBLIC @ FINAL @ signature)
     \<and> s = h @ LF # b @ LF # END_METHOD @ r \<and> cl = END_METHOD \<and> b \<noteq> []"
  by (auto simp: match_at_def strip_prefix_Some split: option.splits dest: match_tail_Some)

lemma match_at_shorter:
  "match_at signature s = Some (h, b, cl, r) \<Longrightarrow> length r < length s"
  by (auto dest: match_at_Some)

text \<open>
  \<open>text.replace(pattern, callback)\<close> with the \<open>g\<close> flag: the text is read from the left;
  where the pattern matches, the match is replaced and reading goes on after it; where
  it does not, the character is kept.
\<close>

function replace_pattern :: "string \<Rightarrow> string \<Rightarrow> string" where
  "replace_pattern signature [] = []"
| "replace_pattern signature (c # cs) =
     (case match_at signature (c # cs) of
        Some (openingLine, body, closingLine, rest) \<Rightarrow>
          patch_method openingLine body closingLine @ replace_pattern signature rest
      | None \<Rightarrow> c # replace_pattern signature cs)"
  by pat_completeness auto
termination
  by (relation "measure (\<lambda>(signature, s). length s)") (auto dest: match_at_shorter)

subsection \<open>One file\<close>

text \<open>The loop over \<open>METHOD_PATTERNS\<close>, in the order of \<open>METHOD_SIGNATURES\<close>.\<close>

definition apply_patterns :: "string list \<Rightarrow> string \<Rightarrow> string" where
  "apply_patterns signatures content =
     foldl (\<lambda>patchedContent signature. replace_pattern signature patchedContent)
       content signatures"

text \<open>
  The part of \<open>processSmaliFile\<close> between reading and writing, as a function of the
  host's \<open>os.type()\<close> and the content read: the candidate test, and the transform, which
  gives the content to write when there is one to write.
\<close>

definition isCandidate :: "string \<Rightarrow> bool" where
  "isCandidate content = includes_str content INTERFACE_LINE"

definition normalize_line_endings :: "string \<Rightarrow> string \<Rightarrow> string" where
  "normalize_line_endings os_type content =
     (if os_type = ''Windows_NT'' then crlf_to_lf content else content)"

definition patch :: "string \<Rightarrow> string \<Rightarrow> string option" where
  "patch os_type content =
     (let originalContent = normalize_line_endings os_type content;
          patchedContent = apply_patterns METHOD_SIGNATURES originalContent
      in if originalContent \<noteq> patchedContent
         then Some (if os_type = ''Windows_NT''
                    then lf_to_crlf patchedContent else patchedContent)
         else None)"

definition changed :: "string \<Rightarrow> string \<Rightarrow> bool" where
  "changed os_type content \<longleftrightarrow> patch os_type content \<noteq> None"

text \<open>What a file that held \<open>content\<close> holds once the transform has run on it.\<close>

definition content_after :: "string \<Rightarrow> string \<Rightarrow> string" where
  "content_after os_type content =
     (case patch os_type content of None \<Rightarrow> content | Some patchedContent \<Rightarrow> patchedContent)"

subsection \<open>The file system\<close>

datatype io_error = ENOENT | EACCES

record filesystem =
  files :: "string \<rightharpoonup> string"
  readonly :: "string list"

definition readFile :: "filesystem \<Rightarrow> string \<Rightarrow> io_error + string" where
  "readFile fs filePath =
     (case files fs filePath of None \<Rightarrow> Inl ENOENT | Some content \<Rightarrow> Inr content)"

definition writeFile :: "filesystem \<Rightarrow> string \<Rightarrow> string \<Rightarrow> io_error + filesystem" where
  "writeFile fs filePath content =
     (if filePath \<in> set (readonly fs) then Inl EACCES
      else Inr (fs\<lparr>files := (files fs)(filePath \<mapsto> content)\<rparr>))"

text \<open>\<open>processSmaliFile\<close>: whether patches were applied, and the file system afterwards.\<close>

definition processSmaliFile ::
  "string \<Rightarrow> filesystem \<Rightarrow> string \<Rightarrow> io_error + (bool \<times> filesystem)" where
  "processSmaliFile os_type fs filePath =
     (case readFile fs filePath of
        Inl e \<Rightarrow> Inl e
      | Inr originalContent \<Rightarrow>
          if \<not> isCandidate originalContent then Inr (False, fs)
          else (case patch os_type originalContent of
                  None \<Rightarrow> Inr (False, fs)
                | Some patchedContent \<Rightarrow>
                    (case writeFile fs filePath patchedContent of
                       Inl e \<Rightarrow> Inl e
                     | Inr fs' \<Rightarrow> Inr (True, fs'))))"

section \<open>Facts about the primitives\<close>

subsection \<open>\<open>includes\<close>\<close>

lemma includes_str_Cons:
  "includes_str (c # cs) p \<longleftrightarrow> prefix p (c # cs) \<or> includes_str cs p"
  by (simp only: includes_str.simps strip_prefix_None) simp

declare includes_str.simps(2) [simp del]

lemma includes_str_Nil [simp]: "includes_str s []"
  by (cases s) (simp_all add: includes_str_Cons)

lemma includes_str_iff: "includes_str s p \<longleftrightarrow> (\<exists>a b. s = a @ p @ b)"
proof (induction s)
  case Nil
  then show ?case by auto
next
  case (Cons c cs)
  have "prefix p (c # cs) \<longleftrightarrow> (\<exists>b. c # cs = p @ b)"
    by (simp add: prefix_def)
  moreover have "(\<exists>a b. c # cs = a @ p @ b) \<longleftrightarrow> (\<exists>b. c # cs = p @ b) \<or> (\<exists>a b. cs = a @ p @ b)"
  proof
    assume "\<exists>a b. c # cs = a @ p @ b"
    then obtain a b where ab: "c # cs = a @ p @ b" by blast
    show "(\<exists>b. c # cs = p @ b) \<or> (\<exists>a b. cs = a @ p @ b)"
    proof (cases a)
      case Nil
      with ab show ?thesis by auto
    next
      case (Cons x a')
      with ab have "cs = a' @ p @ b" by simp
      then show ?thesis by blast
    qed
  next
    assume "(\<exists>b. c # cs = p @ b) \<or> (\<exists>a b. cs = a @ p @ b)"
    then show "\<exists>a b. c # cs = a @ p @ b"
    proof
      assume "\<exists>b. c # cs = p @ b"
      then obtain b where "c # cs = [] @ p @ b" by auto
      then show ?thesis by blast
    next
      assume "\<exists>a b. cs = a @ p @ b"
      then obtain a b where "c # cs = (c # a) @ p @ b" by auto
      then show ?thesis by blast
    qed
  qed
  ultimately show ?case using Cons.IH by (simp add: includes_str_Cons)
qed

lemma includes_str_mono:
  "includes_str s p \<Longrightarrow> includes_str (a @ s @ b) p"
  unfolding includes_str_iff
  by (metis append.assoc)

subsection \<open>Line endings\<close>

lemma prefix_crlf_to_lf:
  "LF \<notin> set p \<Longrightarrow> prefix p (crlf_to_lf s) \<Longrightarrow> prefix p s"
proof (induction s arbitrary: p rule: crlf_to_lf.induct)
  case (1 c d cs)
  show ?case
  proof (cases p)
    case Nil
    then show ?thesis by simp
  next
    case (Cons x p')
    show ?thesis
    proof (cases "c = CR \<and> d = LF")
      case True
      with "1.prems" Cons show ?thesis by auto
    next
      case False
      with "1.prems" Cons have "x = c" "prefix p' (crlf_to_lf (d # cs))" "LF \<notin> set p'"
        by auto
      with "1.IH"(2) [OF False] Cons show ?thesis by simp
    qed
  qed
qed simp_all

lemma includes_crlf_to_lf:
  "LF \<notin> set p \<Longrightarrow> includes_str (crlf_to_lf s) p \<Longrightarrow> includes_str s p"
proof (induction s rule: crlf_to_lf.induct)
  case (1 c d cs)
  show ?case
  proof (cases "c = CR \<and> d = LF")
    case True
    with "1.prems" have "prefix p (LF # crlf_to_lf cs) \<or> includes_str (crlf_to_lf cs) p"
      by (simp add: includes_str_Cons)
    then show ?thesis
    proof
      assume "prefix p (LF # crlf_to_lf cs)"
      with "1.prems"(1) have "p = []" by (cases p) auto
      then show ?thesis by simp
    next
      assume "includes_str (crlf_to_lf cs) p"
      with "1.IH"(1) [OF True "1.prems"(1)] have "includes_str cs p" by simp
      then show ?thesis by (simp add: includes_str_Cons)
    qed
  next
    case False
    with "1.prems" have "prefix p (c # crlf_to_lf (d # cs)) \<or> includes_str (crlf_to_lf (d # cs)) p"
      by (simp add: includes_str_Cons)
    then show ?thesis
    proof
      assume "prefix p (c # crlf_to_lf (d # cs))"
      with False have "prefix p (crlf_to_lf (c # d # cs))" by auto
      from prefix_crlf_to_lf [OF "1.prems"(1) this] show ?thesis
        by (simp add: includes_str_Cons)
    next
      assume "includes_str (crlf_to_lf (d # cs)) p"
      with "1.IH"(2) [OF False "1.prems"(1)] show ?thesis
        by (simp add: includes_str_Cons)
    qed
  qed
qed simp_all

subsection \<open>Texts without a match\<close>

lemma LF_notin_signatures:
  "signature \<in> set METHOD_SIGNATURES \<Longrightarrow> LF \<notin> set signature"
  by (auto simp: METHOD_SIGNATURES_def SIG_CLIENT_def SIG_SERVER_def SIG_ISSUERS_def)

lemma not_includes_no_match:
  assumes "\<not> includes_str s signature"
  shows "match_at signature s = None"
proof (cases "match_at signature s")
  case None
  then show ?thesis .
next
  case (Some m)
  obtain h b cl r where m: "m = (h, b, cl, r)" by (cases m)
  from match_at_Some [OF Some [unfolded m]]
  have "s = METHOD_PUBLIC @ signature @ (LF # b @ LF # END_METHOD @ r)
      \<or> s = (METHOD_PUBLIC @ FINAL) @ signature @ (LF # b @ LF # END_METHOD @ r)"
    by auto
  then have "includes_str s signature"
    unfolding includes_str_iff by blast
  with assms show ?thesis by simp
qed

lemma replace_pattern_no_signature:
  "\<not> includes_str s signature \<Longrightarrow> replace_pattern signature s = s"
proof (induction s)
  case Nil
  then show ?case by simp
next
  case (Cons c cs)
  from Cons.prems have "match_at signature (c # cs) = None"
    by (rule not_includes_no_match)
  moreover from Cons.prems have "\<not> includes_str cs signature"
    by (simp add: includes_str_Cons)
  ultimately show ?case using Cons.IH by simp
qed

lemma apply_patterns_no_signature:
  "list_all (\<lambda>signature. \<not> includes_str s signature) signatures \<Longrightarrow>
     apply_patterns signatures s = s"
  unfolding apply_patterns_def
  by (induction signatures) (simp_all add: replace_pattern_no_signature)

subsection \<open>Lines\<close>

lemma split_lines_not_Nil [simp]: "split_lines s \<noteq> []"
  by (induction s) (auto split: list.splits)

lemma LF_notin_split_lines: "l \<in> set (split_lines s) \<Longrightarrow> LF \<notin> set l"
proof (induction s arbitrary: l)
  case Nil
  then show ?case by simp
next
  case (Cons c cs)
  show ?case
  proof (cases "c = LF")
    case True
    with Cons show ?thesis by auto
  next
    case False
    obtain x xs where x: "split_lines cs = x # xs"
      by (cases "split_lines cs") simp_all
    with Cons.prems False have "l = c # x \<or> l \<in> set xs" by simp
    with Cons.IH x False show ?thesis by auto
  qed
qed

lemma split_lines_line: "LF \<notin> set l \<Longrightarrow> split_lines l = [l]"
  by (induction l) auto

lemma split_lines_append:
  "LF \<notin> set l \<Longrightarrow> split_lines (l @ LF # s) = l # split_lines s"
  by (induction l) auto

lemma split_join_lines:
  "ls \<noteq> [] \<Longrightarrow> \<forall>l\<in>set ls. LF \<notin> set l \<Longrightarrow> split_lines (join_lines ls) = ls"
proof (induction ls rule: join_lines.induct)
  case 1
  then show ?case by simp
next
  case (2 l)
  then show ?case by (simp add: split_lines_line)
next
  case (3 l k ks)
  then show ?case by (simp add: split_lines_append)
qed

lemma join_split_lines: "join_lines (split_lines s) = s"
proof (induction s)
  case Nil
  then show ?case by simp
next
  case (Cons c cs)
  obtain x xs where x: "split_lines cs = x # xs"
    by (cases "split_lines cs") simp_all
  show ?case
  proof (cases "c = LF")
    case True
    with Cons x show ?thesis by simp
  next
    case False
    with Cons x show ?thesis by (cases xs) auto
  qed
qed

lemma set_trimEnd: "set (trimEnd s) \<subseteq> set s"
  unfolding trimEnd_def using set_dropWhileD by fastforce

lemma trimEnd_snoc: "\<not> is_space c \<Longrightarrow> trimEnd (s @ [c]) = s @ [c]"
  by (simp add: trimEnd_def)

lemma set_strip_indent: "set (strip_indent l) \<subseteq> set l"
  by (auto simp: strip_indent_def strip_prefix_Some split: option.splits)

text \<open>
  The lines \<open>patch_method\<close> puts between the opening line and the old body, before they
  are indented and trimmed.
\<close>

definition inserted_lines :: "string \<Rightarrow> string list" where
  "inserted_lines openingLine =
     [''# inserted by apk-mitm to disable certificate pinning'']
     @ (if includes_str openingLine ''getAcceptedIssuers''
        then RETURN_EMPTY_ARRAY_FIX else RETURN_VOID_FIX)
     @ ['''', ''# commented out by apk-mitm to disable old method body'', ''# '']"

lemma LF_notin_inserted_lines: "l \<in> set (inserted_lines h) \<Longrightarrow> LF \<notin> set l"
  by (auto simp: inserted_lines_def RETURN_EMPTY_ARRAY_FIX_def RETURN_VOID_FIX_def
      split: if_splits)

lemma patch_method_join:
  "patch_method h b cl =
     join_lines (trimEnd h
       # map (\<lambda>line. trimEnd (''    '' @ line)) (inserted_lines h)
       @ map (\<lambda>line. trimEnd (''    # '' @ strip_indent line)) (split_lines b)
       @ [trimEnd cl])"
  by (simp add: patch_method_def inserted_lines_def Let_def comp_def)

lemma patch_method_lines:
  assumes "LF \<notin> set h" "LF \<notin> set cl"
  shows "split_lines (patch_method h b cl) =
     trimEnd h
       # map (\<lambda>line. trimEnd (''    '' @ line)) (inserted_lines h)
       @ map (\<lambda>line. trimEnd (''    # '' @ strip_indent line)) (split_lines b)
       @ [trimEnd cl]"
  unfolding patch_method_join
proof (rule split_join_lines)
  show "trimEnd h
       # map (\<lambda>line. trimEnd (''    '' @ line)) (inserted_lines h)
       @ map (\<lambda>line. trimEnd (''    # '' @ strip_indent line)) (split_lines b)
       @ [trimEnd cl] \<noteq> []" by simp
  have a: "LF \<notin> set (trimEnd h)" "LF \<notin> set (trimEnd cl)"
    using assms set_trimEnd by blast+
  have b: "LF \<notin> set (trimEnd (''    '' @ l))" if "l \<in> set (inserted_lines h)" for l
  proof -
    from that have "LF \<notin> set (''    '' @ l)" by (auto dest: LF_notin_inserted_lines)
    with set_trimEnd show ?thesis by blast
  qed
  have c: "LF \<notin> set (trimEnd (''    # '' @ strip_indent l))" if "l \<in> set (split_lines b)" for l
  proof -
    from that have "LF \<notin> set l" by (rule LF_notin_split_lines)
    with set_strip_indent have "LF \<notin> set (''    # '' @ strip_indent l)" by fastforce
    with set_trimEnd show ?thesis by blast
  qed
  show "\<forall>l\<in>set (trimEnd h
       # map (\<lambda>line. trimEnd (''    '' @ line)) (inserted_lines h)
       @ map (\<lambda>line. trimEnd (''    # '' @ strip_indent line)) (split_lines b)
       @ [trimEnd cl]). LF \<notin> set l"
    using a b c by auto
qed

lemma trimEnd_id: "s \<noteq> [] \<Longrightarrow> \<not> is_space (last s) \<Longrightarrow> trimEnd s = s"
  by (cases s rule: rev_cases) (simp_all add: trimEnd_snoc)

lemma signature_cases:
  "signature \<in> set METHOD_SIGNATURES \<Longrightarrow>
     signature = SIG_CLIENT \<or> signature = SIG_SERVER \<or> signature = SIG_ISSUERS"
  by (simp add: METHOD_SIGNATURES_def)

lemma signature_last:
  assumes "signature \<in> set METHOD_SIGNATURES"
  shows "signature \<noteq> [] \<and> \<not> is_space (last signature)"
  using signature_cases [OF assms]
  by (elim disjE) (simp_all add: SIG_CLIENT_def SIG_SERVER_def SIG_ISSUERS_def is_space_def)

lemma LF_notin_header:
  assumes "fin = [] \<or> fin = FINAL" "signature \<in> set METHOD_SIGNATURES"
  shows "LF \<notin> set (METHOD_PUBLIC @ fin @ signature)"
proof -
  have "LF \<notin> set METHOD_PUBLIC" "LF \<notin> set FINAL"
    by (simp_all add: METHOD_PUBLIC_def FINAL_def)
  with assms LF_notin_signatures [OF assms(2)] show ?thesis by auto
qed

lemma trimEnd_header:
  assumes "signature \<in> set METHOD_SIGNATURES"
  shows "trimEnd (METHOD_PUBLIC @ fin @ signature) = METHOD_PUBLIC @ fin @ signature"
  using signature_last [OF assms] by (intro trimEnd_id) simp_all

lemma trimEnd_END_METHOD: "trimEnd END_METHOD = END_METHOD"
  by (rule trimEnd_id) (simp_all add: END_METHOD_def is_space_def)

lemma fix_client:
  "\<not> includes_str (METHOD_PUBLIC @ SIG_CLIENT) ''getAcceptedIssuers''"
  "\<not> includes_str (METHOD_PUBLIC @ FINAL @ SIG_CLIENT) ''getAcceptedIssuers''"
  by (simp_all add: SIG_CLIENT_def METHOD_PUBLIC_def FINAL_def includes_str_Cons)

lemma fix_server:
  "\<not> includes_str (METHOD_PUBLIC @ SIG_SERVER) ''getAcceptedIssuers''"
  "\<not> includes_str (METHOD_PUBLIC @ FINAL @ SIG_SERVER) ''getAcceptedIssuers''"
  by (simp_all add: SIG_SERVER_def METHOD_PUBLIC_def FINAL_def includes_str_Cons)

lemma fix_issuers:
  "includes_str (METHOD_PUBLIC @ SIG_ISSUERS) ''getAcceptedIssuers''"
  "includes_str (METHOD_PUBLIC @ FINAL @ SIG_ISSUERS) ''getAcceptedIssuers''"
  by (simp_all add: SIG_ISSUERS_def METHOD_PUBLIC_def FINAL_def includes_str_Cons)

lemma inserted_lines_void:
  assumes "fin = [] \<or> fin = FINAL" "signature = SIG_CLIENT \<or> signature = SIG_SERVER"
  shows "inserted_lines (METHOD_PUBLIC @ fin @ signature) =
     [''# inserted by apk-mitm to disable certificate pinning'',
      ''.locals 0'', ''return-void'',
      '''', ''# commented out by apk-mitm to disable old method body'', ''# '']"
proof -
  from assms have "\<not> includes_str (METHOD_PUBLIC @ fin @ signature) ''getAcceptedIssuers''"
    using fix_client fix_server by (elim disjE) simp_all
  then show ?thesis by (simp add: inserted_lines_def RETURN_VOID_FIX_def)
qed

lemma inserted_lines_array:
  assumes "fin = [] \<or> fin = FINAL"
  shows "inserted_lines (METHOD_PUBLIC @ fin @ SIG_ISSUERS) =
     [''# inserted by apk-mitm to disable certificate pinning'',
      ''.locals 1'', ''const/4 v0, 0x0'',
      ''new-array v0, v0, [Ljava/security/cert/X509Certificate;'', ''return-object v0'',
      '''', ''# commented out by apk-mitm to disable old method body'', ''# '']"
proof -
  from assms have "includes_str (METHOD_PUBLIC @ fin @ SIG_ISSUERS) ''getAcceptedIssuers''"
    using fix_issuers by (elim disjE) simp_all
  then show ?thesis by (simp add: inserted_lines_def RETURN_EMPTY_ARRAY_FIX_def)
qed

lemma trimEnd_literals:
  "trimEnd ''    # inserted by apk-mitm to disable certificate pinning''
     = ''    # inserted by apk-mitm to disable certificate pinning''"
  "trimEnd ''    .locals 0'' = ''    .locals 0''"
  "trimEnd ''    return-void'' = ''    return-void''"
  "trimEnd ''    .locals 1'' = ''    .locals 1''"
  "trimEnd ''    const/4 v0, 0x0'' = ''    const/4 v0, 0x0''"
  "trimEnd ''    new-array v0, v0, [Ljava/security/cert/X509Certificate;''
     = ''    new-array v0, v0, [Ljava/security/cert/X509Certificate;''"
  "trimEnd ''    return-object v0'' = ''    return-object v0''"
  "trimEnd ''    '' = []"
  "trimEnd ''    # commented out by apk-mitm to disable old method body''
     = ''    # commented out by apk-mitm to disable old method body''"
  "trimEnd ''    # '' = ''    #''"
  by (simp_all add: trimEnd_def is_space_def)

subsection \<open>The flag and the write\<close>

lemma changed_iff:
  "changed os_type content \<longleftrightarrow>
     apply_patterns METHOD_SIGNATURES (normalize_line_endings os_type content) \<noteq> normalize_line_endings os_type content"
  by (auto simp: changed_def patch_def Let_def)

lemma processSmaliFile_False:
  assumes "processSmaliFile os_type fs filePath = Inr (False, fs')"
  shows "fs' = fs"
  using assms
  by (auto simp: processSmaliFile_def split: sum.splits if_splits option.splits)

lemma processSmaliFile_unchanged:
  assumes "files fs filePath = Some content" "\<not> changed os_type content"
  shows "processSmaliFile os_type fs filePath = Inr (False, fs)"
  using assms
  by (auto simp: processSmaliFile_def readFile_def changed_def split: sum.splits option.splits)

text \<open>A candidate of one line, ending with a carriage return and a line feed.\<close>

definition crlf_candidate :: string where
  "crlf_candidate = INTERFACE_LINE @ [CR, LF]"

lemma normalize_crlf_candidate:
  "normalize_line_endings ''Windows_NT'' crlf_candidate = INTERFACE_LINE @ [LF]"
  by (simp add: normalize_line_endings_def crlf_candidate_def INTERFACE_LINE_def)

lemma crlf_candidate_free:
  "list_all (\<lambda>signature. \<not> includes_str (INTERFACE_LINE @ [LF]) signature) METHOD_SIGNATURES"
  by (simp add: METHOD_SIGNATURES_def SIG_CLIENT_def SIG_SERVER_def SIG_ISSUERS_def
      INTERFACE_LINE_def includes_str_Cons)

lemma crlf_candidate_same:
  "apply_patterns METHOD_SIGNATURES (normalize_line_endings ''Windows_NT'' crlf_candidate)
     = INTERFACE_LINE @ [LF]"
  unfolding normalize_crlf_candidate
  by (rule apply_patterns_no_signature [OF crlf_candidate_free])

lemma crlf_candidate_unchanged: "\<not> changed ''Windows_NT'' crlf_candidate"
  unfolding changed_iff normalize_crlf_candidate
  by (simp add: apply_patterns_no_signature [OF crlf_candidate_free])

subsection \<open>Files with carriage returns\<close>

text \<open>
  \<open>crlf_throughout\<close>: every line feed of the text directly follows a carriage return.
\<close>

fun crlf_throughout :: "string \<Rightarrow> bool" where
  "crlf_throughout [] = True"
| "crlf_throughout [c] = (c \<noteq> LF)"
| "crlf_throughout (c # d # cs) =
     (c \<noteq> LF \<and> (if d = LF then c = CR \<and> crlf_throughout cs else crlf_throughout (d # cs)))"

lemma crlf_throughout_LF [simp]: "\<not> crlf_throughout (LF # s)"
  by (cases s) simp_all

lemma crlf_throughout_before_LF_aux:
  "crlf_throughout (a @ x # LF # b) \<Longrightarrow> x = CR"
proof (induction a rule: crlf_throughout.induct)
  case 1
  then show ?case by simp
next
  case (2 c)
  then show ?case by (cases "x = LF") simp_all
next
  case (3 c d cs)
  show ?case
  proof (cases "d = LF")
    case True
    with "3.prems" have "crlf_throughout (cs @ x # LF # b)" by simp
    with "3.IH"(1) [OF True] show ?thesis .
  next
    case False
    with "3.prems" have "crlf_throughout ((d # cs) @ x # LF # b)" by simp
    with "3.IH"(2) [OF False] show ?thesis .
  qed
qed

lemma crlf_throughout_before_LF:
  "crlf_throughout s \<Longrightarrow> s = a @ x # LF # b \<Longrightarrow> x = CR"
  using crlf_throughout_before_LF_aux by blast

lemma crlf_throughout_lf_to_crlf_aux:
  "crlf_throughout (lf_to_crlf s) \<and> (\<forall>r. lf_to_crlf s \<noteq> LF # r)"
proof (induction s)
  case Nil
  then show ?case by simp
next
  case (Cons c cs)
  show ?case
  proof (cases "c = LF")
    case True
    with Cons show ?thesis by simp
  next
    case False
    with Cons show ?thesis by (cases "lf_to_crlf cs") auto
  qed
qed

lemma crlf_throughout_lf_to_crlf: "crlf_throughout (lf_to_crlf s)"
  using crlf_throughout_lf_to_crlf_aux by blast

lemma replace_pattern_no_match:
  "(\<And>s'. suffix s' s \<Longrightarrow> match_at signature s' = None) \<Longrightarrow> replace_pattern signature s = s"
proof (induction s)
  case Nil
  then show ?case by simp
next
  case (Cons c cs)
  have "match_at signature (c # cs) = None"
    by (rule Cons.prems) simp
  moreover have "replace_pattern signature cs = cs"
  proof (rule Cons.IH)
    fix s'
    assume "suffix s' cs"
    then have "suffix s' (c # cs)" by (rule suffix_ConsI)
    then show "match_at signature s' = None" by (rule Cons.prems)
  qed
  ultimately show ?case by simp
qed

lemma apply_patterns_same:
  "(\<And>signature. signature \<in> set signatures \<Longrightarrow> replace_pattern signature s = s) \<Longrightarrow>
     apply_patterns signatures s = s"
  unfolding apply_patterns_def
  by (induction signatures) simp_all

lemma crlf_throughout_no_match:
  assumes crlf: "crlf_throughout s" and suf: "suffix s' s"
    and mem: "signature \<in> set METHOD_SIGNATURES"
  shows "match_at signature s' = None"
proof (cases "match_at signature s'")
  case None
  then show ?thesis .
next
  case (Some m)
  obtain h b cl r where m: "m = (h, b, cl, r)" by (cases m)
  from match_at_Some [OF Some [unfolded m]]
  obtain fin where s': "s' = (METHOD_PUBLIC @ fin @ signature) @ LF # b @ LF # END_METHOD @ r"
    by auto
  from signature_last [OF mem] obtain sg x where sg: "signature = sg @ [x]" "x \<noteq> CR"
    by (cases signature rule: rev_cases) (auto simp: is_space_def)
  from suf obtain pre where "s = pre @ s'" by (auto simp: suffix_def)
  with s' sg have "s = (pre @ METHOD_PUBLIC @ fin @ sg) @ x # LF # (b @ LF # END_METHOD @ r)"
    by simp
  from crlf_throughout_before_LF [OF crlf this] sg(2) show ?thesis by simp
qed

text \<open>A class with one target method, every line ending with a carriage return and a line feed.\<close>

definition crlf_class :: string where
  "crlf_class =
     INTERFACE_LINE @ [CR, LF]
     @ METHOD_PUBLIC @ SIG_ISSUERS @ [CR, LF]
     @ ''    return-object p0'' @ [CR, LF]
     @ END_METHOD @ [CR, LF]"

text \<open>
  \<open>crlf_only\<close>: the text is made of characters that are neither a carriage return nor a
  line feed, and of carriage returns each followed by a line feed. Every line of such a
  text ends with the two, and neither is written anywhere else.
\<close>

fun crlf_only :: "string \<Rightarrow> bool" where
  "crlf_only [] = True"
| "crlf_only [c] = (c \<noteq> LF \<and> c \<noteq> CR)"
| "crlf_only (c # d # cs) =
     (if c = CR then d = LF \<and> crlf_only cs else c \<noteq> LF \<and> crlf_only (d # cs))"

lemma crlf_only_LF [simp]: "\<not> crlf_only (LF # s)"
  by (cases s) simp_all

lemma crlf_only_throughout: "crlf_only s \<Longrightarrow> crlf_throughout s"
proof (induction s rule: crlf_only.induct)
  case 1
  then show ?case by simp
next
  case (2 c)
  then show ?case by simp
next
  case (3 c d cs)
  show ?case
  proof (cases "c = CR")
    case True
    with "3.prems" "3.IH"(1) show ?thesis by simp
  next
    case False
    with "3.prems" have "c \<noteq> LF" "crlf_only (d # cs)" by simp_all
    moreover from this(2) have "d \<noteq> LF" by auto
    ultimately show ?thesis using "3.IH"(2) [OF False] by simp
  qed
qed

lemma crlf_to_lf_no_CR: "crlf_only s \<Longrightarrow> CR \<notin> set (crlf_to_lf s)"
proof (induction s rule: crlf_only.induct)
  case 1
  then show ?case by simp
next
  case (2 c)
  then show ?case by auto
next
  case (3 c d cs)
  show ?case
  proof (cases "c = CR")
    case True
    with "3.prems" "3.IH"(1) show ?thesis by simp
  next
    case False
    with "3.prems" "3.IH"(2) show ?thesis by auto
  qed
qed

lemma lf_to_crlf_crlf_only: "CR \<notin> set s \<Longrightarrow> crlf_only (lf_to_crlf s)"
proof (induction s)
  case Nil
  then show ?case by simp
next
  case (Cons c cs)
  show ?case
  proof (cases "c = LF")
    case True
    with Cons show ?thesis by simp
  next
    case False
    with Cons show ?thesis by (cases "lf_to_crlf cs") auto
  qed
qed

lemma set_join_lines: "set (join_lines ls) \<subseteq> insert LF (\<Union>l\<in>set ls. set l)"
  by (induction ls rule: join_lines.induct) auto

lemma set_split_lines: "l \<in> set (split_lines s) \<Longrightarrow> set l \<subseteq> set s"
proof (induction s arbitrary: l)
  case Nil
  then show ?case by simp
next
  case (Cons c cs)
  obtain x xs where x: "split_lines cs = x # xs"
    by (cases "split_lines cs") simp_all
  show ?case
  proof (cases "c = LF")
    case True
    with Cons show ?thesis by auto
  next
    case False
    with Cons.prems x have "l = c # x \<or> l \<in> set xs" by simp
    then show ?thesis
    proof
      assume l: "l = c # x"
      from x have "x \<in> set (split_lines cs)" by simp
      then have "set x \<subseteq> set cs" by (rule Cons.IH)
      with l show ?thesis by auto
    next
      assume "l \<in> set xs"
      with x have "l \<in> set (split_lines cs)" by simp
      then have "set l \<subseteq> set cs" by (rule Cons.IH)
      then show ?thesis by auto
    qed
  qed
qed

lemma inserted_lines_no_CR: "l \<in> set (inserted_lines h) \<Longrightarrow> CR \<notin> set l"
  by (auto simp: inserted_lines_def RETURN_EMPTY_ARRAY_FIX_def RETURN_VOID_FIX_def
      split: if_splits)

lemma patch_method_no_CR:
  assumes "CR \<notin> set h" "CR \<notin> set b" "CR \<notin> set cl"
  shows "CR \<notin> set (patch_method h b cl)"
proof
  assume "CR \<in> set (patch_method h b cl)"
  then have "CR \<in> insert LF (\<Union>l\<in>set (trimEnd h
       # map (\<lambda>line. trimEnd (''    '' @ line)) (inserted_lines h)
       @ map (\<lambda>line. trimEnd (''    # '' @ strip_indent line)) (split_lines b)
       @ [trimEnd cl]). set l)"
    unfolding patch_method_join using set_join_lines by blast
  then obtain l where l: "l \<in> set (trimEnd h
       # map (\<lambda>line. trimEnd (''    '' @ line)) (inserted_lines h)
       @ map (\<lambda>line. trimEnd (''    # '' @ strip_indent line)) (split_lines b)
       @ [trimEnd cl])" "CR \<in> set l"
    by blast
  from l(1) consider "l = trimEnd h"
    | k where "k \<in> set (inserted_lines h)" "l = trimEnd (''    '' @ k)"
    | k where "k \<in> set (split_lines b)" "l = trimEnd (''    # '' @ strip_indent k)"
    | "l = trimEnd cl"
    by auto
  then show False
  proof cases
    case 1
    with l(2) set_trimEnd assms(1) show False by blast
  next
    case 2
    with l(2) set_trimEnd have "CR \<in> set (''    '' @ k)" by blast
    with inserted_lines_no_CR [OF 2(1)] show False by simp
  next
    case 3
    with l(2) set_trimEnd have "CR \<in> set (''    # '' @ strip_indent k)" by blast
    then have "CR \<in> set (strip_indent k)" by simp
    with set_strip_indent have "CR \<in> set k" by blast
    with set_split_lines [OF 3(1)] assms(2) show False by blast
  next
    case 4
    with l(2) set_trimEnd assms(3) show False by blast
  qed
qed

lemma replace_pattern_no_CR:
  "CR \<notin> set s \<Longrightarrow> CR \<notin> set (replace_pattern signature s)"
proof (induction signature s rule: replace_pattern.induct)
  case (1 signature)
  then show ?case by simp
next
  case (2 signature c cs)
  show ?case
  proof (cases "match_at signature (c # cs)")
    case None
    with "2.IH"(1) "2.prems" show ?thesis by simp
  next
    case (Some m)
    obtain h b cl r where m: "m = (h, b, cl, r)" by (cases m)
    from match_at_Some [OF Some [unfolded m]]
    have s: "c # cs = h @ LF # b @ LF # cl @ r" by simp
    from "2.prems" have "CR \<notin> set (h @ LF # b @ LF # cl @ r)" unfolding s .
    then have parts: "CR \<notin> set h" "CR \<notin> set b" "CR \<notin> set cl" "CR \<notin> set r" by simp_all
    from "2.IH"(2) [OF Some [unfolded m] refl refl refl parts(4)]
      patch_method_no_CR [OF parts(1,2,3)] Some m
    show ?thesis by simp
  qed
qed

lemma apply_patterns_no_CR:
  "CR \<notin> set s \<Longrightarrow> CR \<notin> set (apply_patterns signatures s)"
  unfolding apply_patterns_def
  by (induction signatures arbitrary: s) (simp_all add: replace_pattern_no_CR)

subsection \<open>Where a pattern matches\<close>

lemma strip_prefix_append [simp]: "strip_prefix p (p @ s) = Some s"
  by (simp add: strip_prefix_Some)

lemma LF_notin_END_METHOD: "LF \<notin> set END_METHOD"
  by (simp add: END_METHOD_def)

lemma no_early_terminator:
  assumes "\<not> includes_str x (LF # END_METHOD)" "x \<noteq> []"
  shows "\<not> prefix (LF # END_METHOD) (x @ LF # END_METHOD @ r)"
proof
  assume "prefix (LF # END_METHOD) (x @ LF # END_METHOD @ r)"
  then consider "prefix (LF # END_METHOD) x"
    | us where "LF # END_METHOD = x @ us" "prefix us (LF # END_METHOD @ r)"
    by (auto simp: prefix_append)
  then show False
  proof cases
    case 1
    then obtain b where "x = [] @ (LF # END_METHOD) @ b" by (auto simp: prefix_def)
    then have "includes_str x (LF # END_METHOD)"
      unfolding includes_str_iff by blast
    with assms(1) show False by simp
  next
    case 2
    show False
    proof (cases us)
      case Nil
      with 2(1) have "x = [] @ (LF # END_METHOD) @ []" by simp
      then have "includes_str x (LF # END_METHOD)"
        unfolding includes_str_iff by blast
      with assms(1) show False by simp
    next
      case (Cons u us')
      with 2(2) have "u = LF" by simp
      moreover from assms(2) 2(1) Cons obtain x' where "END_METHOD = x' @ u # us'"
        by (cases x) auto
      ultimately have "LF \<in> set END_METHOD" by (metis in_set_conv_decomp)
      with LF_notin_END_METHOD show False by simp
    qed
  qed
qed

lemma scan_end_found:
  "\<not> includes_str b (LF # END_METHOD) \<Longrightarrow>
     scan_end (b @ LF # END_METHOD @ r) = Some (b, END_METHOD, r)"
proof (induction b)
  case Nil
  have "strip_prefix (LF # END_METHOD) ((LF # END_METHOD) @ r) = Some r"
    by (rule strip_prefix_append)
  then show ?case by (simp del: strip_prefix.simps)
next
  case (Cons c cs)
  from Cons.prems have "\<not> prefix (LF # END_METHOD) ((c # cs) @ LF # END_METHOD @ r)"
    by (intro no_early_terminator) simp_all
  then have "strip_prefix (LF # END_METHOD) (c # cs @ LF # END_METHOD @ r) = None"
    by (simp add: strip_prefix_None del: strip_prefix.simps)
  moreover from Cons.prems have "\<not> includes_str cs (LF # END_METHOD)"
    by (simp add: includes_str_Cons)
  ultimately show ?case using Cons.IH by (simp del: strip_prefix.simps)
qed

lemma lazy_body_found:
  assumes "b \<noteq> []" "\<not> includes_str b (LF # END_METHOD)"
  shows "lazy_body (b @ LF # END_METHOD @ r) = Some (b, END_METHOD, r)"
proof -
  from assms(1) obtain c cs where b: "b = c # cs" by (cases b) auto
  with assms(2) have "\<not> includes_str cs (LF # END_METHOD)"
    by (simp add: includes_str_Cons)
  from scan_end_found [OF this] b show ?thesis by (simp add: lazy_body_def)
qed

lemma match_tail_found:
  assumes "b \<noteq> []" "\<not> includes_str b (LF # END_METHOD)"
  shows "match_tail opening signature (signature @ LF # b @ LF # END_METHOD @ r)
           = Some (opening @ signature, b, END_METHOD, r)"
  using lazy_body_found [OF assms] by (simp add: match_tail_def)

lemma signature_not_final:
  assumes "signature \<in> set METHOD_SIGNATURES"
  shows "strip_prefix FINAL (signature @ s) = None"
  using signature_cases [OF assms]
  by (elim disjE) (simp_all add: SIG_CLIENT_def SIG_SERVER_def SIG_ISSUERS_def FINAL_def)

lemma match_at_found:
  assumes "signature \<in> set METHOD_SIGNATURES" "fin = [] \<or> fin = FINAL"
    and "b \<noteq> []" "\<not> includes_str b (LF # END_METHOD)"
  shows "match_at signature ((METHOD_PUBLIC @ fin @ signature) @ LF # b @ LF # END_METHOD @ r)
           = Some (METHOD_PUBLIC @ fin @ signature, b, END_METHOD, r)"
  using assms(2)
proof
  assume "fin = []"
  then show ?thesis
    using match_tail_found [OF assms(3,4)] signature_not_final [OF assms(1)]
    by (simp add: match_at_def)
next
  assume "fin = FINAL"
  then show ?thesis
    using match_tail_found [OF assms(3,4), of "METHOD_PUBLIC @ FINAL"]
    by (simp add: match_at_def)
qed

lemma replace_pattern_match:
  assumes "match_at signature s = Some (h, b, cl, r)"
  shows "replace_pattern signature s = patch_method h b cl @ replace_pattern signature r"
proof -
  from match_at_Some [OF assms] have "s \<noteq> []" by auto
  then obtain c cs where "s = c # cs" by (cases s) auto
  with assms show ?thesis by simp
qed

lemma replace_pattern_skip:
  "(\<And>g'. g' \<noteq> [] \<Longrightarrow> suffix g' g \<Longrightarrow> match_at signature (g' @ r) = None) \<Longrightarrow>
     replace_pattern signature (g @ r) = g @ replace_pattern signature r"
proof (induction g)
  case Nil
  then show ?case by simp
next
  case (Cons c cs)
  have "match_at signature ((c # cs) @ r) = None"
    by (rule Cons.prems) simp_all
  moreover have "replace_pattern signature (cs @ r) = cs @ replace_pattern signature r"
  proof (rule Cons.IH)
    fix g'
    assume "g' \<noteq> []" "suffix g' cs"
    then show "match_at signature (g' @ r) = None"
      by (intro Cons.prems) (simp_all add: suffix_ConsI)
  qed
  ultimately show ?case by simp
qed

text \<open>
  \<open>whole_lines g\<close>: the text is empty or ends with a line feed.
\<close>

definition whole_lines :: "string \<Rightarrow> bool" where
  "whole_lines g \<longleftrightarrow> (case rev g of [] \<Rightarrow> True | c # cs \<Rightarrow> c = LF)"

lemma whole_lines_suffix:
  assumes "whole_lines g" "suffix g' g" "g' \<noteq> []"
  shows "\<exists>g''. g' = g'' @ [LF]"
proof -
  from assms(2) obtain p where g: "g = p @ g'" by (auto simp: suffix_def)
  from assms(3) obtain g'' x where g': "g' = g'' @ [x]" by (cases g' rule: rev_cases) auto
  with g assms(1) have "x = LF" by (simp add: whole_lines_def)
  with g' show ?thesis by simp
qed

text \<open>
  \<open>no_header signature s\<close>: the opening line of the signature, with or without
  \<open>final\<close>, is not written in \<open>s\<close>.
\<close>

definition no_header :: "string \<Rightarrow> string \<Rightarrow> bool" where
  "no_header signature s \<longleftrightarrow>
     \<not> includes_str s (METHOD_PUBLIC @ signature)
     \<and> \<not> includes_str s (METHOD_PUBLIC @ FINAL @ signature)"

lemma no_header_opening:
  "no_header signature s \<Longrightarrow> fin = [] \<or> fin = FINAL \<Longrightarrow>
     \<not> includes_str s (METHOD_PUBLIC @ fin @ signature)"
  by (auto simp: no_header_def)

lemma includes_str_trans:
  "includes_str s q \<Longrightarrow> includes_str q p \<Longrightarrow> includes_str s p"
  unfolding includes_str_iff by (metis append.assoc)

lemma includes_header_signature:
  "includes_str (METHOD_PUBLIC @ fin @ signature) signature"
proof -
  have "METHOD_PUBLIC @ fin @ signature = (METHOD_PUBLIC @ fin) @ signature @ []" by simp
  then show ?thesis unfolding includes_str_iff by blast
qed

lemma no_signature_no_header:
  assumes "\<not> includes_str s signature"
  shows "no_header signature s"
proof -
  have "\<not> includes_str s (METHOD_PUBLIC @ fin @ signature)" for fin
    using assms includes_str_trans [OF _ includes_header_signature] by blast
  from this [of "[]"] this [of FINAL] show ?thesis by (simp add: no_header_def)
qed

lemma no_match_in_gap:
  assumes free: "no_header signature g" and lines: "whole_lines g"
    and mem: "signature \<in> set METHOD_SIGNATURES"
    and suf: "suffix g' g" "g' \<noteq> []"
  shows "match_at signature (g' @ r) = None"
proof (cases "match_at signature (g' @ r)")
  case None
  then show ?thesis .
next
  case (Some m)
  obtain h b cl r' where m: "m = (h, b, cl, r')" by (cases m)
  from match_at_Some [OF Some [unfolded m]]
  obtain fin where fin: "fin = [] \<or> fin = FINAL"
    and eq: "g' @ r = (METHOD_PUBLIC @ fin @ signature) @ LF # b @ LF # END_METHOD @ r'"
    by auto
  from whole_lines_suffix [OF lines suf] obtain g'' where g'': "g' = g'' @ [LF]" by blast
  from suf obtain p where p: "g = p @ g'" by (auto simp: suffix_def)
  have noLF: "LF \<notin> set (METHOD_PUBLIC @ fin @ signature)"
    by (rule LF_notin_header [OF fin mem])
  from eq g'' have "g'' @ LF # r = (METHOD_PUBLIC @ fin @ signature) @ LF # (b @ LF # END_METHOD @ r')"
    by simp
  then obtain us where us:
    "g'' = (METHOD_PUBLIC @ fin @ signature) @ us
     \<or> g'' @ us = METHOD_PUBLIC @ fin @ signature \<and> LF # r = us @ LF # (b @ LF # END_METHOD @ r')"
    unfolding append_eq_append_conv2 by blast
  have "\<exists>vs. g'' = (METHOD_PUBLIC @ fin @ signature) @ vs"
  proof (cases "g'' = (METHOD_PUBLIC @ fin @ signature) @ us")
    case True
    then show ?thesis by blast
  next
    case False
    with us have *: "g'' @ us = METHOD_PUBLIC @ fin @ signature"
      "LF # r = us @ LF # (b @ LF # END_METHOD @ r')" by simp_all
    show ?thesis
    proof (cases us)
      case Nil
      with *(1) show ?thesis by simp
    next
      case (Cons u us')
      with *(2) have "u = LF" by simp
      with Cons have "LF \<in> set (g'' @ us)" by simp
      with *(1) noLF show ?thesis by simp
    qed
  qed
  then obtain vs where "g'' = (METHOD_PUBLIC @ fin @ signature) @ vs" by blast
  with p g'' have "g = p @ (METHOD_PUBLIC @ fin @ signature) @ (vs @ [LF])" by simp
  then have "includes_str g (METHOD_PUBLIC @ fin @ signature)"
    unfolding includes_str_iff by blast
  with no_header_opening [OF free fin] show ?thesis by simp
qed

lemma replace_pattern_gap:
  assumes "no_header signature g" "whole_lines g" "signature \<in> set METHOD_SIGNATURES"
  shows "replace_pattern signature (g @ r) = g @ replace_pattern signature r"
  by (rule replace_pattern_skip) (rule no_match_in_gap [OF assms])

subsection \<open>Method declarations\<close>

text \<open>
  A method declaration in a file: the text before it (since the previous declaration, or
  the start of the file), its opening line and its body.
\<close>

type_synonym method_decl = "string \<times> string \<times> string"

fun declaration_text :: "method_decl \<Rightarrow> string" where
  "declaration_text (before, openingLine, body) =
     before @ openingLine @ LF # body @ LF # END_METHOD"

fun declaration_patched :: "method_decl \<Rightarrow> string" where
  "declaration_patched (before, openingLine, body) =
     before @ patch_method openingLine body END_METHOD"

fun separate_declaration :: "string \<Rightarrow> method_decl \<Rightarrow> bool" where
  "separate_declaration signature (before, openingLine, body) \<longleftrightarrow>
     no_header signature before \<and> whole_lines before
     \<and> (openingLine = METHOD_PUBLIC @ signature \<or> openingLine = METHOD_PUBLIC @ FINAL @ signature)
     \<and> body \<noteq> [] \<and> \<not> includes_str body (LF # END_METHOD)"

lemma replace_pattern_declaration:
  assumes "signature \<in> set METHOD_SIGNATURES" "separate_declaration signature d"
  shows "replace_pattern signature (declaration_text d @ rest)
           = declaration_patched d @ replace_pattern signature rest"
proof -
  obtain g h b where d: "d = (g, h, b)" by (cases d)
  with assms(2) obtain fin where fin: "fin = [] \<or> fin = FINAL"
    and h: "h = METHOD_PUBLIC @ fin @ signature" by auto
  from d assms(2) have g: "no_header signature g" "whole_lines g"
    and b: "b \<noteq> []" "\<not> includes_str b (LF # END_METHOD)" by simp_all
  have "replace_pattern signature (g @ h @ LF # b @ LF # END_METHOD @ rest)
          = g @ replace_pattern signature (h @ LF # b @ LF # END_METHOD @ rest)"
    by (rule replace_pattern_gap [OF g assms(1)])
  also have "replace_pattern signature (h @ LF # b @ LF # END_METHOD @ rest)
          = patch_method h b END_METHOD @ replace_pattern signature rest"
    using match_at_found [OF assms(1) fin b, of rest] h
    by (intro replace_pattern_match) simp
  finally show ?thesis using d by simp
qed

text \<open>Two declarations of \<open>checkClientTrusted\<close> in one text.\<close>

definition two_declarations :: "method_decl list" where
  "two_declarations =
     [(''# virtual methods'' @ [LF], METHOD_PUBLIC @ SIG_CLIENT, ''    throw v0''),
      ([LF, LF], METHOD_PUBLIC @ FINAL @ SIG_CLIENT, ''    return-void'')]"

text \<open>A method of three lines; the second ends with spaces, the third is indented by two.\<close>

definition pinned_method :: string where
  "pinned_method =
     METHOD_PUBLIC @ SIG_SERVER @ [LF]
     @ ''    .locals 1'' @ [LF]
     @ ''    throw v0  '' @ [LF]
     @ ''  nop'' @ [LF]
     @ END_METHOD @ [LF]"

subsection \<open>Headers without a terminator\<close>

text \<open>
  \<open>terminated_after opening s\<close>: somewhere in \<open>s\<close> the opening line is written and,
  after it, a line starts with \<open>.end method\<close>. \<open>header_terminated signature s\<close>: so
  it is for an opening line of the signature, with or without \<open>final\<close>.
\<close>

fun terminated_after :: "string \<Rightarrow> string \<Rightarrow> bool" where
  "terminated_after opening [] = False"
| "terminated_after opening (c # cs) =
     ((case strip_prefix opening (c # cs) of
         None \<Rightarrow> False
       | Some r \<Rightarrow> includes_str r (LF # END_METHOD))
      \<or> terminated_after opening cs)"

definition header_terminated :: "string \<Rightarrow> string \<Rightarrow> bool" where
  "header_terminated signature s \<longleftrightarrow>
     terminated_after (METHOD_PUBLIC @ signature) s
     \<or> terminated_after (METHOD_PUBLIC @ FINAL @ signature) s"

lemma terminated_afterI:
  "includes_str r (LF # END_METHOD) \<Longrightarrow> terminated_after opening (a @ opening @ r)"
proof (induction a)
  case Nil
  show ?case
  proof (cases "opening @ r")
    case Nil
    with Nil.prems show ?thesis by (simp add: includes_str_iff)
  next
    case (Cons c cs)
    have "strip_prefix opening (opening @ r) = Some r" by (rule strip_prefix_append)
    with Cons Nil.prems show ?thesis by (simp del: strip_prefix.simps)
  qed
next
  case (Cons x a)
  then show ?case by (simp del: strip_prefix.simps)
qed

lemma match_terminated_after:
  assumes "match_at signature s' = Some m" "suffix s' s"
  shows "header_terminated signature s"
proof -
  obtain h b cl r where m: "m = (h, b, cl, r)" by (cases m)
  from match_at_Some [OF assms(1) [unfolded m]]
  obtain fin where fin: "fin = [] \<or> fin = FINAL"
    and s': "s' = (METHOD_PUBLIC @ fin @ signature) @ LF # b @ LF # END_METHOD @ r"
    by auto
  from assms(2) obtain pre where "s = pre @ s'" by (auto simp: suffix_def)
  with s' have s: "s = pre @ (METHOD_PUBLIC @ fin @ signature) @ (LF # b @ LF # END_METHOD @ r)"
    by simp
  have "LF # b @ LF # END_METHOD @ r = (LF # b) @ (LF # END_METHOD) @ r" by simp
  then have "includes_str (LF # b @ LF # END_METHOD @ r) (LF # END_METHOD)"
    unfolding includes_str_iff by blast
  then have "terminated_after (METHOD_PUBLIC @ fin @ signature)
      (pre @ (METHOD_PUBLIC @ fin @ signature) @ (LF # b @ LF # END_METHOD @ r))"
    by (rule terminated_afterI)
  with s have "terminated_after (METHOD_PUBLIC @ fin @ signature) s" by (simp only:)
  with fin show ?thesis by (auto simp: header_terminated_def)
qed

lemma first_LF_unique:
  "LF \<notin> set a \<Longrightarrow> LF \<notin> set b \<Longrightarrow> a @ LF # x = b @ LF # y \<Longrightarrow> a = b \<and> x = y"
proof (induction a arbitrary: b)
  case Nil
  then show ?case by (cases b) auto
next
  case (Cons c a)
  then show ?case by (cases b) auto
qed

lemma unterminated_no_match:
  assumes mem: "signature \<in> set METHOD_SIGNATURES" and fin: "fin = [] \<or> fin = FINAL"
    and open_end: "\<not> includes_str (LF # rest) (LF # END_METHOD)"
  shows "match_at signature ((METHOD_PUBLIC @ fin @ signature) @ LF # rest) = None"
proof (cases "match_at signature ((METHOD_PUBLIC @ fin @ signature) @ LF # rest)")
  case None
  then show ?thesis .
next
  case (Some m)
  obtain h b cl r where m: "m = (h, b, cl, r)" by (cases m)
  from match_at_Some [OF Some [unfolded m]]
  obtain fin' where fin': "fin' = [] \<or> fin' = FINAL"
    and eq: "(METHOD_PUBLIC @ fin @ signature) @ LF # rest
       = (METHOD_PUBLIC @ fin' @ signature) @ LF # (b @ LF # END_METHOD @ r)"
    by auto
  from first_LF_unique [OF LF_notin_header [OF fin mem] LF_notin_header [OF fin' mem] eq]
  have "rest = b @ (LF # END_METHOD) @ r" by simp
  then have "LF # rest = (LF # b) @ (LF # END_METHOD) @ r" by simp
  then have "includes_str (LF # rest) (LF # END_METHOD)"
    unfolding includes_str_iff by blast
  with open_end show ?thesis by simp
qed

lemma all_unterminated_unchanged:
  assumes "list_all (\<lambda>signature. \<not> header_terminated signature
              (normalize_line_endings os_type content)) METHOD_SIGNATURES"
  shows "(\<forall>signature s'. signature \<in> set METHOD_SIGNATURES
            \<and> suffix s' (normalize_line_endings os_type content)
            \<longrightarrow> match_at signature s' = None)
    \<and> patch os_type content = None
    \<and> \<not> changed os_type content
    \<and> (files fs filePath = Some content
         \<longrightarrow> processSmaliFile os_type fs filePath = Inr (False, fs))"
proof -
  have none: "match_at signature s' = None"
    if "signature \<in> set METHOD_SIGNATURES" "suffix s' (normalize_line_endings os_type content)"
    for signature s'
  proof (cases "match_at signature s'")
    case None
    then show ?thesis .
  next
    case (Some m)
    from match_terminated_after [OF Some that(2)] assms that(1) show ?thesis
      by (simp add: list_all_iff)
  qed
  have "apply_patterns METHOD_SIGNATURES (normalize_line_endings os_type content)
          = normalize_line_endings os_type content"
    by (intro apply_patterns_same replace_pattern_no_match none)
  then have p: "patch os_type content = None" by (simp add: patch_def)
  then have c: "\<not> changed os_type content" by (simp add: changed_def)
  from processSmaliFile_unchanged [OF _ c] none p c show ?thesis by blast
qed

text \<open>
  A candidate with a complete constructor, which calls \<open>getAcceptedIssuers\<close>, and
  then the header of \<open>checkClientTrusted\<close> with one line of body and no
  \<open>.end method\<close> after it.
\<close>

definition truncated_class :: string where
  "truncated_class =
     INTERFACE_LINE @ [LF]
     @ ''.method public constructor <init>()V'' @ [LF]
     @ ''    invoke-virtual {p0}, Lcom/example/Pins;->'' @ SIG_ISSUERS @ [LF]
     @ ''    return-void'' @ [LF]
     @ END_METHOD @ [LF]
     @ METHOD_PUBLIC @ SIG_CLIENT @ [LF]
     @ ''    .locals 1'' @ [LF]"

text \<open>
  A candidate with a complete \<open>checkClientTrusted\<close>, and then the header of
  \<open>checkServerTrusted\<close> with one line of body and no \<open>.end method\<close> after it.
\<close>

definition half_truncated_class :: string where
  "half_truncated_class =
     INTERFACE_LINE @ [LF]
     @ METHOD_PUBLIC @ SIG_CLIENT @ [LF]
     @ ''    return-void'' @ [LF]
     @ END_METHOD @ [LF]
     @ (METHOD_PUBLIC @ SIG_SERVER) @ LF # ''    .locals 1'' @ [LF]"

subsection \<open>A second run\<close>

lemma lf_to_crlf_not_LF: "lf_to_crlf s \<noteq> LF # r"
  by (cases s) auto

lemma crlf_to_lf_lf_to_crlf: "crlf_to_lf (lf_to_crlf s) = s"
proof (induction s)
  case Nil
  then show ?case by simp
next
  case (Cons c cs)
  show ?case
  proof (cases "c = LF")
    case True
    with Cons show ?thesis by simp
  next
    case False
    show ?thesis
    proof (cases "lf_to_crlf cs")
      case Nil
      with Cons False show ?thesis by simp
    next
      case (Cons d ds)
      with lf_to_crlf_not_LF [of cs ds] have "d \<noteq> LF" by auto
      with Cons Cons.IH False show ?thesis by simp
    qed
  qed
qed

text \<open>\<open>hashes s\<close>: how many times \<open>#\<close> is written in \<open>s\<close>.\<close>

definition hashes :: "string \<Rightarrow> nat" where
  "hashes s = length (filter (\<lambda>c. c = CHR ''#'') s)"

lemma hashes_append [simp]: "hashes (a @ b) = hashes a + hashes b"
  by (simp add: hashes_def)

lemma hashes_Nil [simp]: "hashes [] = 0"
  by (simp add: hashes_def)

lemma hashes_Cons: "hashes (c # cs) = (if c = CHR ''#'' then 1 else 0) + hashes cs"
  by (simp add: hashes_def)

lemma hashes_join_lines: "hashes (join_lines ls) = sum_list (map hashes ls)"
  by (induction ls rule: join_lines.induct) (simp_all add: hashes_Cons)

lemma hashes_trimEnd: "hashes (trimEnd s) = hashes s"
proof -
  have "filter (\<lambda>c. c = CHR ''#'') (dropWhile is_space r) = filter (\<lambda>c. c = CHR ''#'') r" for r
    by (induction r) (auto simp: is_space_def)
  from this [of "rev s"] show ?thesis
    by (simp add: hashes_def trimEnd_def) (metis length_rev rev_filter)
qed

lemma hashes_strip_indent: "hashes (strip_indent l) = hashes l"
  by (auto simp: strip_indent_def strip_prefix_Some hashes_Cons split: option.splits)

lemma hashes_split_lines: "sum_list (map hashes (split_lines s)) = hashes s"
  using hashes_join_lines [of "split_lines s"] by (simp add: join_split_lines)

lemma hashes_patch_method:
  "hashes (openingLine @ LF # body @ LF # closingLine)
     < hashes (patch_method openingLine body closingLine)"
proof -
  define f where "f = (\<lambda>line. trimEnd (''    # '' @ strip_indent line))"
  define g where "g = (\<lambda>line. trimEnd (''    '' @ line))"
  have f: "hashes (f line) = Suc (hashes line)" for line
    by (simp add: f_def hashes_trimEnd hashes_strip_indent hashes_Cons)
  have "sum_list (map hashes (map f ls)) = sum_list (map hashes ls) + length ls" for ls
    by (induction ls) (simp_all add: f)
  from this [of "split_lines body"]
  have body: "sum_list (map hashes (map f (split_lines body)))
        = hashes body + length (split_lines body)"
    by (simp only: hashes_split_lines)
  have "patch_method openingLine body closingLine
      = join_lines (trimEnd openingLine # map g (inserted_lines openingLine)
          @ map f (split_lines body) @ [trimEnd closingLine])"
    unfolding f_def g_def by (rule patch_method_join)
  then have "hashes (patch_method openingLine body closingLine)
      = hashes openingLine + sum_list (map hashes (map g (inserted_lines openingLine)))
        + (hashes body + length (split_lines body)) + hashes closingLine"
    by (simp add: hashes_join_lines hashes_trimEnd body del: map_map)
  moreover have "0 < length (split_lines body)" by simp
  ultimately show ?thesis by (simp add: hashes_Cons)
qed

text \<open>\<open>matches signature s\<close>: the pattern of the signature matches somewhere in \<open>s\<close>.\<close>

definition matches :: "string \<Rightarrow> string \<Rightarrow> bool" where
  "matches signature s \<longleftrightarrow> (\<exists>s'. suffix s' s \<and> match_at signature s' \<noteq> None)"

lemma matches_Cons:
  "matches signature (c # cs) \<longleftrightarrow> match_at signature (c # cs) \<noteq> None \<or> matches signature cs"
  unfolding matches_def by (auto simp: suffix_Cons)

lemma match_at_Nil [simp]: "match_at signature [] = None"
  by (simp add: match_at_def METHOD_PUBLIC_def)

lemma matches_Nil [simp]: "\<not> matches signature []"
  by (simp add: matches_def)

lemma hashes_replace_pattern:
  "hashes s \<le> hashes (replace_pattern signature s)
   \<and> (matches signature s \<longrightarrow> hashes s < hashes (replace_pattern signature s))"
proof (induction signature s rule: replace_pattern.induct)
  case (1 signature)
  then show ?case by simp
next
  case (2 signature c cs)
  show ?case
  proof (cases "match_at signature (c # cs)")
    case None
    with "2.IH"(1) show ?thesis by (simp add: matches_Cons hashes_Cons)
  next
    case (Some m)
    obtain h b cl r where m: "m = (h, b, cl, r)" by (cases m)
    from match_at_Some [OF Some [unfolded m]]
    have s: "c # cs = (h @ LF # b @ LF # cl) @ r" by simp
    from "2.IH"(2) [OF Some [unfolded m] refl refl refl]
    have "hashes r \<le> hashes (replace_pattern signature r)" by simp
    moreover have "hashes (c # cs) = hashes (h @ LF # b @ LF # cl) + hashes r"
      by (simp only: s hashes_append)
    moreover note hashes_patch_method [of h b cl]
    ultimately show ?thesis using Some m by simp
  qed
qed

lemma hashes_apply_patterns: "hashes s \<le> hashes (apply_patterns signatures s)"
proof (induction signatures arbitrary: s)
  case Nil
  then show ?case by (simp add: apply_patterns_def)
next
  case (Cons g gs)
  have "hashes s \<le> hashes (replace_pattern g s)"
    using hashes_replace_pattern by blast
  also have "\<dots> \<le> hashes (apply_patterns gs (replace_pattern g s))"
    by (rule Cons.IH)
  finally show ?case by (simp add: apply_patterns_def)
qed

lemma apply_patterns_snoc:
  "apply_patterns (gs @ [g]) s = replace_pattern g (apply_patterns gs s)"
  by (simp add: apply_patterns_def)

lemma replace_pattern_changes_iff:
  "replace_pattern signature s \<noteq> s \<longleftrightarrow> matches signature s"
proof
  assume "replace_pattern signature s \<noteq> s"
  then show "matches signature s"
    using replace_pattern_no_match [of s signature] unfolding matches_def by blast
next
  assume "matches signature s"
  with hashes_replace_pattern [of s signature] show "replace_pattern signature s \<noteq> s"
    by auto
qed

lemma apply_patterns_changes_iff:
  "apply_patterns signatures s \<noteq> s \<longleftrightarrow> hashes s < hashes (apply_patterns signatures s)"
proof (induction signatures rule: rev_induct)
  case Nil
  then show ?case by (simp add: apply_patterns_def)
next
  case (snoc g gs)
  let ?w = "apply_patterns gs s"
  show ?case
  proof
    assume ne: "apply_patterns (gs @ [g]) s \<noteq> s"
    show "hashes s < hashes (apply_patterns (gs @ [g]) s)"
    proof (cases "?w = s")
      case True
      with ne have "matches g s"
        by (simp add: apply_patterns_snoc replace_pattern_changes_iff)
      with hashes_replace_pattern [of s g] True show ?thesis
        by (simp add: apply_patterns_snoc)
    next
      case False
      with snoc.IH have "hashes s < hashes ?w" by simp
      also have "\<dots> \<le> hashes (replace_pattern g ?w)"
        using hashes_replace_pattern by blast
      finally show ?thesis by (simp add: apply_patterns_snoc)
    qed
  next
    assume "hashes s < hashes (apply_patterns (gs @ [g]) s)"
    then show "apply_patterns (gs @ [g]) s \<noteq> s" by auto
  qed
qed

lemma scan_end_exists:
  "includes_str s (LF # END_METHOD) \<Longrightarrow> scan_end s \<noteq> None"
proof (induction s)
  case Nil
  then show ?case by simp
next
  case (Cons c cs)
  show ?case
  proof (cases "strip_prefix (LF # END_METHOD) (c # cs)")
    case (Some r)
    then show ?thesis by (simp del: strip_prefix.simps)
  next
    case None
    then have "\<not> prefix (LF # END_METHOD) (c # cs)"
      using strip_prefix_None by blast
    with Cons.prems have "includes_str cs (LF # END_METHOD)"
      using includes_str_Cons by blast
    with Cons.IH None show ?thesis
      by (auto simp del: strip_prefix.simps split: option.splits)
  qed
qed

lemma lazy_body_exists:
  assumes "x \<noteq> []"
  shows "lazy_body (x @ LF # END_METHOD @ t) \<noteq> None"
proof -
  from assms obtain c cs where x: "x = c # cs" by (cases x) auto
  have "cs @ LF # END_METHOD @ t = cs @ (LF # END_METHOD) @ t" by simp
  then have "includes_str (cs @ LF # END_METHOD @ t) (LF # END_METHOD)"
    unfolding includes_str_iff by blast
  from scan_end_exists [OF this] x show ?thesis
    by (auto simp: lazy_body_def split: option.splits)
qed

lemma match_tail_exists:
  assumes "x \<noteq> []"
  shows "match_tail opening signature (signature @ LF # x @ LF # END_METHOD @ t) \<noteq> None"
  using lazy_body_exists [OF assms, of t]
  by (auto simp: match_tail_def split: option.splits)

lemma match_at_exists:
  assumes "fin = [] \<or> fin = FINAL" "x \<noteq> []"
  shows "match_at signature ((METHOD_PUBLIC @ fin @ signature) @ LF # x @ LF # END_METHOD @ t)
           \<noteq> None"
  using assms(1)
proof
  assume "fin = []"
  with match_tail_exists [OF assms(2), of METHOD_PUBLIC signature t] show ?thesis
    by (auto simp: match_at_def split: option.splits)
next
  assume "fin = FINAL"
  with match_tail_exists [OF assms(2), of "METHOD_PUBLIC @ FINAL" signature t] show ?thesis
    by (auto simp: match_at_def split: option.splits)
qed

lemma join_lines_Cons: "ls \<noteq> [] \<Longrightarrow> join_lines (l # ls) = l @ LF # join_lines ls"
  by (cases ls) simp_all

lemma join_lines_snoc: "ls \<noteq> [] \<Longrightarrow> join_lines (ls @ [l]) = join_lines ls @ LF # l"
  by (induction ls rule: join_lines.induct) simp_all

lemma join_lines_not_Nil: "l \<noteq> [] \<Longrightarrow> join_lines (l # ls) \<noteq> []"
  by (cases ls) simp_all

lemma patch_method_shape:
  "\<exists>x. x \<noteq> [] \<and> patch_method h b cl = trimEnd h @ LF # x @ LF # trimEnd cl"
proof -
  define f where "f = (\<lambda>line. trimEnd (''    # '' @ strip_indent line))"
  define g where "g = (\<lambda>line. trimEnd (''    '' @ line))"
  obtain others where ins: "inserted_lines h
      = ''# inserted by apk-mitm to disable certificate pinning'' # others"
    by (simp add: inserted_lines_def)
  have first: "g ''# inserted by apk-mitm to disable certificate pinning'' \<noteq> []"
    by (simp add: g_def trimEnd_literals)
  define mids where "mids = map g (inserted_lines h) @ map f (split_lines b)"
  have ne: "mids \<noteq> []" "join_lines mids \<noteq> []"
    unfolding mids_def ins using first by (simp_all add: join_lines_not_Nil)
  have "patch_method h b cl = join_lines (trimEnd h # (mids @ [trimEnd cl]))"
    unfolding mids_def f_def g_def patch_method_join by simp
  also have "\<dots> = trimEnd h @ LF # join_lines (mids @ [trimEnd cl])"
    by (rule join_lines_Cons) simp
  also have "join_lines (mids @ [trimEnd cl]) = join_lines mids @ LF # trimEnd cl"
    by (rule join_lines_snoc [OF ne(1)])
  finally show ?thesis using ne(2) by blast
qed

lemma matches_append: "matches signature s \<Longrightarrow> matches signature (a @ s)"
  unfolding matches_def by (meson suffix_appendI)

lemma matches_replace_pattern:
  "signature \<in> set METHOD_SIGNATURES \<Longrightarrow> matches signature s \<Longrightarrow>
     matches signature (replace_pattern signature s)"
proof (induction signature s rule: replace_pattern.induct)
  case (1 signature)
  then show ?case by simp
next
  case (2 signature c cs)
  show ?case
  proof (cases "match_at signature (c # cs)")
    case None
    with "2.prems" have "matches signature cs" by (simp add: matches_Cons)
    with "2.IH"(1) [OF None] "2.prems" have "matches signature (replace_pattern signature cs)"
      by simp
    with None show ?thesis by (simp add: matches_Cons)
  next
    case (Some m)
    obtain h b cl r where m: "m = (h, b, cl, r)" by (cases m)
    from match_at_Some [OF Some [unfolded m]]
    obtain fin where fin: "fin = [] \<or> fin = FINAL"
      and h: "h = METHOD_PUBLIC @ fin @ signature" and cl: "cl = END_METHOD" by auto
    from patch_method_shape [of h b cl] obtain x where x: "x \<noteq> []"
      "patch_method h b cl = trimEnd h @ LF # x @ LF # trimEnd cl" by blast
    note mem = "2.prems"(1)
    from x(2) h cl have "patch_method h b cl
        = (METHOD_PUBLIC @ fin @ signature) @ LF # x @ LF # END_METHOD"
      by (simp only: trimEnd_header [OF mem] trimEnd_END_METHOD)
    moreover have "replace_pattern signature (c # cs)
        = patch_method h b cl @ replace_pattern signature r"
      using Some m by (simp only: replace_pattern_match)
    ultimately have "replace_pattern signature (c # cs)
        = ((METHOD_PUBLIC @ fin @ signature) @ LF # x @ LF # END_METHOD)
            @ replace_pattern signature r"
      by (simp only:)
    moreover have "matches signature ((METHOD_PUBLIC @ fin @ signature) @ LF # x @ LF # END_METHOD
            @ replace_pattern signature r)"
      unfolding matches_def using match_at_exists [OF fin x(1)] by blast
    ultimately show ?thesis by simp
  qed
qed

lemma apply_patterns_twice:
  assumes "set signatures \<subseteq> set METHOD_SIGNATURES"
    and "apply_patterns signatures s \<noteq> s"
  shows "apply_patterns signatures (apply_patterns signatures s) \<noteq> apply_patterns signatures s"
  using assms
proof (induction signatures rule: rev_induct)
  case Nil
  then show ?case by (simp add: apply_patterns_def)
next
  case (snoc g gs)
  let ?w = "apply_patterns gs s"
  let ?t = "apply_patterns (gs @ [g]) s"
  from snoc.prems(1) have g: "g \<in> set METHOD_SIGNATURES"
    and gs: "set gs \<subseteq> set METHOD_SIGNATURES" by simp_all
  have t: "?t = replace_pattern g ?w" by (rule apply_patterns_snoc)
  have tt: "apply_patterns (gs @ [g]) ?t = replace_pattern g (apply_patterns gs ?t)"
    by (rule apply_patterns_snoc)
  have "hashes ?t < hashes (apply_patterns (gs @ [g]) ?t)"
  proof (cases "matches g ?w")
    case True
    with g have m: "matches g ?t" unfolding t by (rule matches_replace_pattern)
    show ?thesis
    proof (cases "apply_patterns gs ?t = ?t")
      case True
      with m hashes_replace_pattern [of ?t g] show ?thesis by (simp add: tt)
    next
      case False
      then have "hashes ?t < hashes (apply_patterns gs ?t)"
        using apply_patterns_changes_iff by blast
      also have "\<dots> \<le> hashes (replace_pattern g (apply_patterns gs ?t))"
        using hashes_replace_pattern by blast
      finally show ?thesis by (simp add: tt)
    qed
  next
    case False
    then have same: "replace_pattern g ?w = ?w"
      using replace_pattern_changes_iff by blast
    with snoc.prems(2) have "?w \<noteq> s" by (simp add: t)
    from snoc.IH [OF gs this] have "hashes ?w < hashes (apply_patterns gs ?w)"
      using apply_patterns_changes_iff by blast
    also have "\<dots> \<le> hashes (replace_pattern g (apply_patterns gs ?w))"
      using hashes_replace_pattern by blast
    finally show ?thesis by (simp add: apply_patterns_snoc same)
  qed
  then show ?case by auto
qed

lemma normalize_content_after:
  assumes "changed os_type content"
  shows "normalize_line_endings os_type (content_after os_type content)
           = apply_patterns METHOD_SIGNATURES (normalize_line_endings os_type content)"
  using assms
  by (auto simp: changed_def content_after_def patch_def normalize_line_endings_def Let_def
      crlf_to_lf_lf_to_crlf split: if_splits)

lemma second_run:
  "changed os_type (content_after os_type content) \<longleftrightarrow> changed os_type content"
proof (cases "changed os_type content")
  case False
  then have "content_after os_type content = content"
    by (simp add: changed_def content_after_def)
  with False show ?thesis by simp
next
  case True
  then have "apply_patterns METHOD_SIGNATURES (normalize_line_endings os_type content)
      \<noteq> normalize_line_endings os_type content"
    using changed_iff by blast
  with apply_patterns_twice [of METHOD_SIGNATURES]
  have "apply_patterns METHOD_SIGNATURES
          (apply_patterns METHOD_SIGNATURES (normalize_line_endings os_type content))
      \<noteq> apply_patterns METHOD_SIGNATURES (normalize_line_endings os_type content)"
    by blast
  then have "changed os_type (content_after os_type content)"
    unfolding changed_iff [of os_type "content_after os_type content"]
      normalize_content_after [OF True] .
  with True show ?thesis by simp
qed

text \<open>A candidate: the interface line and one pinned method.\<close>

definition pinned_class :: string where
  "pinned_class = INTERFACE_LINE @ [LF] @ pinned_method"

subsection \<open>Where a signature can be written\<close>

lemma includes_str_across_LF:
  assumes "LF \<notin> set p" "includes_str (a @ LF # b) p"
  shows "includes_str a p \<or> includes_str b p"
proof -
  from assms(2) obtain x y where xy: "a @ LF # b = x @ p @ y"
    unfolding includes_str_iff by blast
  then obtain us where us:
    "a = x @ us \<and> us @ LF # b = p @ y \<or> a @ us = x \<and> LF # b = us @ p @ y"
    unfolding append_eq_append_conv2 by blast
  show ?thesis
  proof (cases "a = x @ us \<and> us @ LF # b = p @ y")
    case True
    then obtain vs where vs:
      "us = p @ vs \<and> vs @ LF # b = y \<or> us @ vs = p \<and> LF # b = vs @ y"
      unfolding append_eq_append_conv2 by blast
    show ?thesis
    proof (cases "us = p @ vs \<and> vs @ LF # b = y")
      case True
      with \<open>a = x @ us \<and> us @ LF # b = p @ y\<close> have "a = x @ p @ vs" by simp
      then show ?thesis unfolding includes_str_iff by blast
    next
      case False
      with vs have *: "us @ vs = p" "LF # b = vs @ y" by simp_all
      show ?thesis
      proof (cases vs)
        case Nil
        with * True have "a = x @ p @ []" by simp
        then show ?thesis unfolding includes_str_iff by blast
      next
        case (Cons v vs')
        with *(2) have "v = LF" by simp
        with Cons *(1) have "LF \<in> set p" by auto
        with assms(1) show ?thesis by simp
      qed
    qed
  next
    case False
    with us have *: "a @ us = x" "LF # b = us @ p @ y" by simp_all
    show ?thesis
    proof (cases us)
      case Nil
      with *(2) have "LF # b = p @ y" by simp
      with assms(1) have "p = []" by (cases p) auto
      then show ?thesis by simp
    next
      case (Cons u us')
      with *(2) have "b = us' @ p @ y" by simp
      then show ?thesis unfolding includes_str_iff by blast
    qed
  qed
qed

lemma includes_str_prepend: "includes_str s p \<Longrightarrow> includes_str (a @ s) p"
  using includes_str_mono [of s p a "[]"] by simp

lemma includes_str_extend: "includes_str s p \<Longrightarrow> includes_str (s @ b) p"
  using includes_str_mono [of s p "[]" b] by simp

lemma includes_join_lines:
  "LF \<notin> set p \<Longrightarrow> includes_str (join_lines ls) p \<Longrightarrow> p \<noteq> [] \<Longrightarrow>
     \<exists>l\<in>set ls. includes_str l p"
proof (induction ls rule: join_lines.induct)
  case 1
  then show ?case by simp
next
  case (2 l)
  then show ?case by simp
next
  case (3 l k ks)
  from includes_str_across_LF [OF "3.prems"(1), of l "join_lines (k # ks)"] "3.prems"(2)
  have "includes_str l p \<or> includes_str (join_lines (k # ks)) p" by simp
  with "3.IH" "3.prems" show ?case by auto
qed

lemma includes_line_of:
  "l \<in> set ls \<Longrightarrow> includes_str l p \<Longrightarrow> includes_str (join_lines ls) p"
proof (induction ls rule: join_lines.induct)
  case 1
  then show ?case by simp
next
  case (2 l')
  then show ?case by simp
next
  case (3 l' k ks)
  show ?case
  proof (cases "l = l'")
    case True
    with "3.prems" show ?thesis by (simp add: includes_str_extend)
  next
    case False
    with "3.prems" "3.IH" have "includes_str (join_lines (k # ks)) p" by simp
    then have "includes_str ((l' @ [LF]) @ join_lines (k # ks)) p"
      by (rule includes_str_prepend)
    then show ?thesis by simp
  qed
qed

lemma trimEnd_prefix: "\<exists>ws. s = trimEnd s @ ws"
proof -
  have "rev (takeWhile is_space (rev s) @ dropWhile is_space (rev s)) = rev (rev s)"
    by (simp only: takeWhile_dropWhile_id)
  then have "s = trimEnd s @ rev (takeWhile is_space (rev s))"
    by (simp only: rev_append rev_rev_ident trimEnd_def)
  then show ?thesis ..
qed

lemma includes_trimEnd: "includes_str (trimEnd s) p \<Longrightarrow> includes_str s p"
proof -
  assume a: "includes_str (trimEnd s) p"
  obtain ws where "s = trimEnd s @ ws" using trimEnd_prefix by blast
  with includes_str_extend [OF a, of ws] show ?thesis by simp
qed

lemma includes_strip_indent: "includes_str (strip_indent l) p \<Longrightarrow> includes_str l p"
proof (cases "strip_prefix ''    '' l")
  case None
  then show "includes_str (strip_indent l) p \<Longrightarrow> includes_str l p"
    by (simp add: strip_indent_def)
next
  case (Some r)
  then have l: "l = ''    '' @ r" by (simp only: strip_prefix_Some)
  assume "includes_str (strip_indent l) p"
  with Some have "includes_str r p" by (simp add: strip_indent_def)
  then have "includes_str (''    '' @ r) p" by (rule includes_str_prepend)
  with l show "includes_str l p" by (simp only:)
qed

subsection \<open>Classes\<close>

text \<open>
  A class file as the decompiler writes it: some lines, and then the target methods, each
  with the lines that follow its terminator line. A method is given by whether it is
  \<open>final\<close>, its signature, its body and the lines after it.
\<close>

type_synonym class_method = "bool \<times> string \<times> string \<times> string"

definition opening_line :: "bool \<Rightarrow> string \<Rightarrow> string" where
  "opening_line fin signature = METHOD_PUBLIC @ (if fin then FINAL else []) @ signature"

fun method_text :: "class_method \<Rightarrow> string" where
  "method_text (fin, signature, body, after) =
     opening_line fin signature @ LF # body @ LF # END_METHOD @ LF # after"

fun method_patched :: "class_method \<Rightarrow> string" where
  "method_patched (fin, signature, body, after) =
     patch_method (opening_line fin signature) body END_METHOD @ LF # after"

fun method_after :: "string list \<Rightarrow> class_method \<Rightarrow> string" where
  "method_after signatures (fin, signature, body, after) =
     (if signature \<in> set signatures
      then method_patched (fin, signature, body, after)
      else method_text (fin, signature, body, after))"

definition class_text :: "string \<Rightarrow> class_method list \<Rightarrow> string" where
  "class_text pre methods = pre @ concat (map method_text methods)"

text \<open>
  \<open>no_target_header s\<close>: no opening line of a target method is written in \<open>s\<close>. In a
  well-formed class the opening lines of the target methods are written where these
  methods start and nowhere else, every body has at least one character and no
  \<open>.end method\<close> of its own, and the text between the methods consists of whole lines.
  A body may well call a target method: the call writes the signature, not the opening
  line.
\<close>

definition no_target_header :: "string \<Rightarrow> bool" where
  "no_target_header s \<longleftrightarrow> list_all (\<lambda>signature. no_header signature s) METHOD_SIGNATURES"

text \<open>\<open>no_signature s\<close>: none of the three signatures is written in \<open>s\<close>.\<close>

definition no_signature :: "string \<Rightarrow> bool" where
  "no_signature s \<longleftrightarrow> list_all (\<lambda>signature. \<not> includes_str s signature) METHOD_SIGNATURES"

fun well_formed_method :: "class_method \<Rightarrow> bool" where
  "well_formed_method (fin, signature, body, after) \<longleftrightarrow>
     signature \<in> set METHOD_SIGNATURES
     \<and> body \<noteq> [] \<and> \<not> includes_str body (LF # END_METHOD) \<and> no_target_header body
     \<and> whole_lines after \<and> no_target_header after"

definition well_formed_class :: "string \<Rightarrow> class_method list \<Rightarrow> bool" where
  "well_formed_class pre methods \<longleftrightarrow>
     whole_lines pre \<and> no_target_header pre \<and> list_all well_formed_method methods"

lemma no_signatureD:
  "no_signature s \<Longrightarrow> signature \<in> set METHOD_SIGNATURES \<Longrightarrow> \<not> includes_str s signature"
  by (simp add: no_signature_def list_all_iff)

lemma no_target_headerD:
  "no_target_header s \<Longrightarrow> signature \<in> set METHOD_SIGNATURES \<Longrightarrow> no_header signature s"
  by (simp add: no_target_header_def list_all_iff)

text \<open>No opening line of one signature writes another signature.\<close>

lemma header_other_client:
  "\<not> includes_str (METHOD_PUBLIC @ SIG_SERVER) SIG_CLIENT"
  "\<not> includes_str (METHOD_PUBLIC @ FINAL @ SIG_SERVER) SIG_CLIENT"
  "\<not> includes_str (METHOD_PUBLIC @ SIG_ISSUERS) SIG_CLIENT"
  "\<not> includes_str (METHOD_PUBLIC @ FINAL @ SIG_ISSUERS) SIG_CLIENT"
  by code_simp+

lemma header_other_server:
  "\<not> includes_str (METHOD_PUBLIC @ SIG_CLIENT) SIG_SERVER"
  "\<not> includes_str (METHOD_PUBLIC @ FINAL @ SIG_CLIENT) SIG_SERVER"
  "\<not> includes_str (METHOD_PUBLIC @ SIG_ISSUERS) SIG_SERVER"
  "\<not> includes_str (METHOD_PUBLIC @ FINAL @ SIG_ISSUERS) SIG_SERVER"
  by code_simp+

lemma header_other_issuers:
  "\<not> includes_str (METHOD_PUBLIC @ SIG_CLIENT) SIG_ISSUERS"
  "\<not> includes_str (METHOD_PUBLIC @ FINAL @ SIG_CLIENT) SIG_ISSUERS"
  "\<not> includes_str (METHOD_PUBLIC @ SIG_SERVER) SIG_ISSUERS"
  "\<not> includes_str (METHOD_PUBLIC @ FINAL @ SIG_SERVER) SIG_ISSUERS"
  by code_simp+

lemma signatures_distinct:
  "SIG_CLIENT \<noteq> SIG_SERVER" "SIG_CLIENT \<noteq> SIG_ISSUERS" "SIG_SERVER \<noteq> SIG_ISSUERS"
  by (simp_all add: SIG_CLIENT_def SIG_SERVER_def SIG_ISSUERS_def)

lemma header_other:
  assumes "g \<in> set METHOD_SIGNATURES" "signature \<in> set METHOD_SIGNATURES" "signature \<noteq> g"
  shows "\<not> includes_str (opening_line fin signature) g"
proof -
  from signature_cases [OF assms(1)] signature_cases [OF assms(2)] assms(3)
  consider "signature = SIG_SERVER" "g = SIG_CLIENT" | "signature = SIG_ISSUERS" "g = SIG_CLIENT"
    | "signature = SIG_CLIENT" "g = SIG_SERVER" | "signature = SIG_ISSUERS" "g = SIG_SERVER"
    | "signature = SIG_CLIENT" "g = SIG_ISSUERS" | "signature = SIG_SERVER" "g = SIG_ISSUERS"
    by blast
  then show ?thesis
  proof cases
    case 1
    with header_other_client(1,2) show ?thesis by (cases fin) (simp_all add: opening_line_def)
  next
    case 2
    with header_other_client(3,4) show ?thesis by (cases fin) (simp_all add: opening_line_def)
  next
    case 3
    with header_other_server(1,2) show ?thesis by (cases fin) (simp_all add: opening_line_def)
  next
    case 4
    with header_other_server(3,4) show ?thesis by (cases fin) (simp_all add: opening_line_def)
  next
    case 5
    with header_other_issuers(1,2) show ?thesis by (cases fin) (simp_all add: opening_line_def)
  next
    case 6
    with header_other_issuers(3,4) show ?thesis by (cases fin) (simp_all add: opening_line_def)
  qed
qed

lemma END_METHOD_free_all: "no_signature END_METHOD"
  by code_simp

lemma END_METHOD_free:
  "g \<in> set METHOD_SIGNATURES \<Longrightarrow> \<not> includes_str END_METHOD g"
  using END_METHOD_free_all by (rule no_signatureD)

lemma fixed_lines_free:
  "list_all no_signature
     ([''# inserted by apk-mitm to disable certificate pinning'']
      @ RETURN_EMPTY_ARRAY_FIX @ RETURN_VOID_FIX
      @ ['''', ''# commented out by apk-mitm to disable old method body'', ''# ''])"
  by code_simp

lemma inserted_lines_free:
  assumes "g \<in> set METHOD_SIGNATURES" "l \<in> set (inserted_lines h)"
  shows "\<not> includes_str l g"
proof -
  from assms(2) have "l \<in> set ([''# inserted by apk-mitm to disable certificate pinning'']
      @ RETURN_EMPTY_ARRAY_FIX @ RETURN_VOID_FIX
      @ ['''', ''# commented out by apk-mitm to disable old method body'', ''# ''])"
    unfolding inserted_lines_def by (cases "includes_str h ''getAcceptedIssuers''") auto
  with fixed_lines_free have "no_signature l" unfolding list_all_iff by blast
  then show ?thesis using assms(1) by (rule no_signatureD)
qed

lemma signature_head:
  assumes "g \<in> set METHOD_SIGNATURES"
  shows "\<exists>x p. g = x # p \<and> x \<noteq> CHR '' '' \<and> x \<noteq> CHR ''#''"
  using signature_cases [OF assms]
  by (elim disjE) (simp_all add: SIG_CLIENT_def SIG_SERVER_def SIG_ISSUERS_def)

lemma whole_lines_append: "whole_lines after \<Longrightarrow> whole_lines (x @ LF # after)"
  by (cases "rev after") (simp_all add: whole_lines_def)

lemma not_includes_across_LF:
  "LF \<notin> set p \<Longrightarrow> \<not> includes_str a p \<Longrightarrow> \<not> includes_str b p \<Longrightarrow>
     \<not> includes_str (a @ LF # b) p"
  using includes_str_across_LF by blast

lemma not_includes_opening:
  "\<not> includes_str s g \<Longrightarrow> \<not> includes_str s (METHOD_PUBLIC @ fin @ g)"
  using includes_str_trans [OF _ includes_header_signature] by blast

lemma opening_head: "\<exists>p. METHOD_PUBLIC @ fin @ g = CHR ''.'' # p"
  by (simp add: METHOD_PUBLIC_def)

lemma patch_method_free_opening:
  assumes g: "g \<in> set METHOD_SIGNATURES" and fin: "fin = [] \<or> fin = FINAL"
    and h: "\<not> includes_str h g" and b: "\<not> includes_str b (METHOD_PUBLIC @ fin @ g)"
  shows "\<not> includes_str (patch_method h b END_METHOD) (METHOD_PUBLIC @ fin @ g)"
proof
  let ?q = "METHOD_PUBLIC @ fin @ g"
  assume inc: "includes_str (patch_method h b END_METHOD) ?q"
  from opening_head obtain p where q: "?q = CHR ''.'' # p" by blast
  then have ne: "?q \<noteq> []" by simp
  from inc includes_join_lines [OF LF_notin_header [OF fin g] _ ne]
  obtain l where l: "l \<in> set (trimEnd h
       # map (\<lambda>line. trimEnd (''    '' @ line)) (inserted_lines h)
       @ map (\<lambda>line. trimEnd (''    # '' @ strip_indent line)) (split_lines b)
       @ [trimEnd END_METHOD])" "includes_str l ?q"
    unfolding patch_method_join by blast
  from l(1) consider "l = trimEnd h"
    | k where "k \<in> set (inserted_lines h)" "l = trimEnd (''    '' @ k)"
    | k where "k \<in> set (split_lines b)" "l = trimEnd (''    # '' @ strip_indent k)"
    | "l = trimEnd END_METHOD"
    by auto
  then show False
  proof cases
    case 1
    with l(2) have "includes_str h ?q" by (simp only: includes_trimEnd)
    with not_includes_opening [OF h] show False by simp
  next
    case 2
    with l(2) have "includes_str (''    '' @ k) (CHR ''.'' # p)"
      unfolding q by (simp only: includes_trimEnd)
    then have "includes_str k ?q"
      unfolding q by (simp add: includes_str_Cons)
    with not_includes_opening [OF inserted_lines_free [OF g 2(1)]] show False by simp
  next
    case 3
    with l(2) have "includes_str (''    # '' @ strip_indent k) (CHR ''.'' # p)"
      unfolding q by (simp only: includes_trimEnd)
    then have "includes_str (strip_indent k) ?q"
      unfolding q by (simp add: includes_str_Cons)
    then have "includes_str k ?q" by (rule includes_strip_indent)
    with 3(1) have "includes_str (join_lines (split_lines b)) ?q"
      by (rule includes_line_of)
    with b show False by (simp only: join_split_lines)
  next
    case 4
    with l(2) have "includes_str END_METHOD ?q" by (simp only: includes_trimEnd)
    with not_includes_opening [OF END_METHOD_free [OF g]] show False by simp
  qed
qed

lemma no_header_across_LF:
  assumes "g \<in> set METHOD_SIGNATURES" "no_header g a" "no_header g b"
  shows "no_header g (a @ LF # b)"
proof -
  have "\<not> includes_str (a @ LF # b) (METHOD_PUBLIC @ fin @ g)" if "fin = [] \<or> fin = FINAL" for fin
    using not_includes_across_LF [OF LF_notin_header [OF that assms(1)]]
      no_header_opening [OF assms(2) that] no_header_opening [OF assms(3) that]
    by blast
  from this [of "[]"] this [of FINAL] show ?thesis by (simp add: no_header_def)
qed

lemma patch_method_free:
  assumes g: "g \<in> set METHOD_SIGNATURES"
    and h: "\<not> includes_str h g" and b: "no_header g b"
  shows "no_header g (patch_method h b END_METHOD)"
proof -
  have "\<not> includes_str (patch_method h b END_METHOD) (METHOD_PUBLIC @ fin @ g)"
    if "fin = [] \<or> fin = FINAL" for fin
    by (rule patch_method_free_opening [OF g that h no_header_opening [OF b that]])
  from this [of "[]"] this [of FINAL] show ?thesis by (simp add: no_header_def)
qed

lemma no_header_Nil: "no_header g []"
  by (simp add: no_header_def METHOD_PUBLIC_def)

lemma after_free:
  assumes g: "g \<in> set METHOD_SIGNATURES" and "no_target_header after" "whole_lines after"
  shows "no_header g (LF # after)" "whole_lines (LF # after)"
proof -
  from no_header_across_LF [OF g no_header_Nil no_target_headerD [OF assms(2) g]]
  show "no_header g (LF # after)" by simp
  from whole_lines_append [OF assms(3), of "[]"] show "whole_lines (LF # after)" by simp
qed

lemma other_method_skipped:
  assumes g: "g \<in> set METHOD_SIGNATURES"
    and wf: "well_formed_method (fin, signature, body, after)" and other: "signature \<noteq> g"
  shows "replace_pattern g (method_text (fin, signature, body, after) @ rest)
           = method_text (fin, signature, body, after) @ replace_pattern g rest"
    and "replace_pattern g (method_patched (fin, signature, body, after) @ rest)
           = method_patched (fin, signature, body, after) @ replace_pattern g rest"
proof -
  from wf have mem: "signature \<in> set METHOD_SIGNATURES"
    and body: "no_target_header body" and after: "no_target_header after" "whole_lines after"
    by simp_all
  have h': "\<not> includes_str (opening_line fin signature) g"
    by (rule header_other [OF g mem other])
  then have h: "no_header g (opening_line fin signature)" by (rule no_signature_no_header)
  have b: "no_header g body" by (rule no_target_headerD [OF body g])
  have a: "no_header g after" by (rule no_target_headerD [OF after(1) g])
  have e: "no_header g (END_METHOD @ LF # after)"
    by (rule no_header_across_LF [OF g no_signature_no_header [OF END_METHOD_free [OF g]] a])
  have "no_header g (body @ LF # END_METHOD @ LF # after)"
    by (rule no_header_across_LF [OF g b e])
  with h have "no_header g (opening_line fin signature @ LF # body @ LF # END_METHOD @ LF # after)"
    by (rule no_header_across_LF [OF g])
  then have t: "no_header g (method_text (fin, signature, body, after))" by simp
  have "whole_lines ((opening_line fin signature @ LF # body @ LF # END_METHOD) @ LF # after)"
    by (rule whole_lines_append [OF after(2)])
  then have tw: "whole_lines (method_text (fin, signature, body, after))" by simp
  show "replace_pattern g (method_text (fin, signature, body, after) @ rest)
           = method_text (fin, signature, body, after) @ replace_pattern g rest"
    by (rule replace_pattern_gap [OF t tw g])
  have "no_header g (patch_method (opening_line fin signature) body END_METHOD)"
    by (rule patch_method_free [OF g h' b])
  then have "no_header g (patch_method (opening_line fin signature) body END_METHOD @ LF # after)"
    using a by (rule no_header_across_LF [OF g])
  then have p: "no_header g (method_patched (fin, signature, body, after))" by simp
  have "whole_lines (patch_method (opening_line fin signature) body END_METHOD @ LF # after)"
    by (rule whole_lines_append [OF after(2)])
  then have pw: "whole_lines (method_patched (fin, signature, body, after))" by simp
  show "replace_pattern g (method_patched (fin, signature, body, after) @ rest)
           = method_patched (fin, signature, body, after) @ replace_pattern g rest"
    by (rule replace_pattern_gap [OF p pw g])
qed

lemma own_method_patched:
  assumes g: "g \<in> set METHOD_SIGNATURES" and wf: "well_formed_method (fin, g, body, after)"
  shows "replace_pattern g (method_text (fin, g, body, after) @ rest)
           = method_patched (fin, g, body, after) @ replace_pattern g rest"
proof -
  from wf have body: "body \<noteq> []" "\<not> includes_str body (LF # END_METHOD)"
    and after: "no_target_header after" "whole_lines after" by simp_all
  have fin: "(if fin then FINAL else []) = [] \<or> (if fin then FINAL else []) = FINAL" by simp
  have "match_at g ((METHOD_PUBLIC @ (if fin then FINAL else []) @ g)
          @ LF # body @ LF # END_METHOD @ ((LF # after) @ rest))
        = Some (METHOD_PUBLIC @ (if fin then FINAL else []) @ g, body, END_METHOD, (LF # after) @ rest)"
    by (rule match_at_found [OF g fin body])
  then have "replace_pattern g ((METHOD_PUBLIC @ (if fin then FINAL else []) @ g)
          @ LF # body @ LF # END_METHOD @ ((LF # after) @ rest))
        = patch_method (METHOD_PUBLIC @ (if fin then FINAL else []) @ g) body END_METHOD
            @ replace_pattern g ((LF # after) @ rest)"
    by (rule replace_pattern_match)
  also have "replace_pattern g ((LF # after) @ rest) = (LF # after) @ replace_pattern g rest"
    by (rule replace_pattern_gap [OF after_free [OF g after] g])
  finally show ?thesis by (simp add: opening_line_def)
qed

lemma replace_pattern_method:
  assumes g: "g \<in> set METHOD_SIGNATURES" and new: "g \<notin> set applied"
    and wf: "well_formed_method m"
  shows "replace_pattern g (method_after applied m @ rest)
           = method_after (applied @ [g]) m @ replace_pattern g rest"
proof -
  obtain fin signature body after where m: "m = (fin, signature, body, after)"
    by (cases m)
  show ?thesis
  proof (cases "signature = g")
    case True
    with new m own_method_patched [OF g wf [unfolded m True], of rest] show ?thesis by simp
  next
    case False
    with m other_method_skipped [OF g wf [unfolded m] False, of rest] show ?thesis by simp
  qed
qed

lemma replace_pattern_methods:
  assumes g: "g \<in> set METHOD_SIGNATURES" and new: "g \<notin> set applied"
  shows "list_all well_formed_method methods \<Longrightarrow>
     replace_pattern g (concat (map (method_after applied) methods))
       = concat (map (method_after (applied @ [g])) methods)"
proof (induction methods)
  case Nil
  then show ?case by simp
next
  case (Cons m ms)
  then have m: "well_formed_method m" and ms: "list_all well_formed_method ms" by simp_all
  have "replace_pattern g (method_after applied m @ concat (map (method_after applied) ms))
      = method_after (applied @ [g]) m @ replace_pattern g (concat (map (method_after applied) ms))"
    by (rule replace_pattern_method [OF g new m])
  with Cons.IH [OF ms] show ?case by simp
qed

lemma replace_pattern_class:
  assumes g: "g \<in> set METHOD_SIGNATURES" and new: "g \<notin> set applied"
    and wf: "well_formed_class pre methods"
  shows "replace_pattern g (pre @ concat (map (method_after applied) methods))
           = pre @ concat (map (method_after (applied @ [g])) methods)"
proof -
  from wf have pre: "no_header g pre" "whole_lines pre"
    and ms: "list_all well_formed_method methods"
    by (simp_all add: well_formed_class_def no_target_headerD [OF _ g])
  have "replace_pattern g (pre @ concat (map (method_after applied) methods))
      = pre @ replace_pattern g (concat (map (method_after applied) methods))"
    by (rule replace_pattern_gap [OF pre g])
  with replace_pattern_methods [OF g new ms] show ?thesis by simp
qed

lemma apply_patterns_class:
  assumes wf: "well_formed_class pre methods"
  shows "set todo \<subseteq> set METHOD_SIGNATURES \<Longrightarrow> distinct (applied @ todo) \<Longrightarrow>
     apply_patterns todo (pre @ concat (map (method_after applied) methods))
       = pre @ concat (map (method_after (applied @ todo)) methods)"
proof (induction todo arbitrary: applied)
  case Nil
  then show ?case by (simp add: apply_patterns_def)
next
  case (Cons g gs)
  then have g: "g \<in> set METHOD_SIGNATURES" and new: "g \<notin> set applied"
    and gs: "set gs \<subseteq> set METHOD_SIGNATURES" and d: "distinct ((applied @ [g]) @ gs)"
    by auto
  have "apply_patterns (g # gs) (pre @ concat (map (method_after applied) methods))
      = apply_patterns gs (replace_pattern g (pre @ concat (map (method_after applied) methods)))"
    by (simp add: apply_patterns_def)
  also have "\<dots> = apply_patterns gs (pre @ concat (map (method_after (applied @ [g])) methods))"
    by (simp only: replace_pattern_class [OF g new wf])
  also have "\<dots> = pre @ concat (map (method_after ((applied @ [g]) @ gs)) methods)"
    by (rule Cons.IH [OF gs d])
  finally show ?case by simp
qed

lemma method_after_Nil: "method_after [] m = method_text m"
  by (cases m) simp

lemma method_after_set:
  "set signatures' = set signatures \<Longrightarrow> method_after signatures' m = method_after signatures m"
  by (cases m) simp

lemma method_after_Nil_fun: "method_after [] = method_text"
  by (rule ext) (rule method_after_Nil)

text \<open>
  A class with the three target methods, the second of them \<open>final\<close>; the first calls
  the method of the same name of another trust manager.
\<close>

definition trust_manager_pre :: string where
  "trust_manager_pre =
     ''.class public Lcom/example/Pins;'' @ [LF]
     @ INTERFACE_LINE @ [LF]
     @ [LF]"

definition trust_manager_methods :: "class_method list" where
  "trust_manager_methods =
     [(False, SIG_CLIENT,
       ''    invoke-interface {v0, p1, p2}, Ljavax/net/ssl/X509TrustManager;->'' @ SIG_CLIENT
         @ [LF] @ ''    return-void'', [LF]),
      (True, SIG_SERVER, ''    .locals 1'' @ [LF] @ ''    throw v0'', [LF]),
      (False, SIG_ISSUERS, ''    const/4 v0, 0x0'' @ [LF] @ ''    return-object v0'', [])]"

section \<open>The claims\<close>

text \<open>
  C8. The candidate filter answers true exactly for the texts that contain the line
  \<open>.implements Ljavax/net/ssl/X509TrustManager;\<close> somewhere, so it answers false for
  every text without it. The transform can be run on any text: on one that contains none
  of the three signatures it reports no change, whatever the host, and the content stays
  as it was.
\<close>

theorem candidate_filter_and_no_signature:
  "(isCandidate t \<longleftrightarrow> (\<exists>pre post. t = pre @ INTERFACE_LINE @ post))
   \<and> (list_all (\<lambda>signature. \<not> includes_str t signature) METHOD_SIGNATURES
        \<longrightarrow> patch os_type t = None \<and> \<not> changed os_type t \<and> content_after os_type t = t)"
proof (intro conjI impI)
  show "isCandidate t \<longleftrightarrow> (\<exists>pre post. t = pre @ INTERFACE_LINE @ post)"
    by (simp add: isCandidate_def includes_str_iff)
next
  assume free: "list_all (\<lambda>signature. \<not> includes_str t signature) METHOD_SIGNATURES"
  have "list_all (\<lambda>signature. \<not> includes_str (normalize_line_endings os_type t) signature) METHOD_SIGNATURES"
    unfolding list_all_iff
  proof
    fix signature
    assume mem: "signature \<in> set METHOD_SIGNATURES"
    with free have "\<not> includes_str t signature" by (simp add: list_all_iff)
    with includes_crlf_to_lf [OF LF_notin_signatures [OF mem]]
    show "\<not> includes_str (normalize_line_endings os_type t) signature"
      by (auto simp: normalize_line_endings_def)
  qed
  then have same: "apply_patterns METHOD_SIGNATURES (normalize_line_endings os_type t) = normalize_line_endings os_type t"
    by (rule apply_patterns_no_signature)
  then show none: "patch os_type t = None" by (simp add: patch_def)
  then show "\<not> changed os_type t" by (simp add: changed_def)
  from none show "content_after os_type t = t" by (simp add: content_after_def)
qed

theorem candidate_filter_and_no_signature_witness:
  "list_all (\<lambda>signature. \<not> includes_str ''.class public Lfoo;'' signature) METHOD_SIGNATURES
   \<and> \<not> isCandidate ''.class public Lfoo;''
   \<and> patch ''Windows_NT'' ''.class public Lfoo;'' = None
   \<and> \<not> changed ''Windows_NT'' ''.class public Lfoo;''"
proof -
  have free: "list_all (\<lambda>signature. \<not> includes_str ''.class public Lfoo;'' signature) METHOD_SIGNATURES"
    by (simp add: METHOD_SIGNATURES_def SIG_CLIENT_def SIG_SERVER_def SIG_ISSUERS_def
        includes_str_Cons)
  have "\<not> isCandidate ''.class public Lfoo;''"
    by (simp add: isCandidate_def INTERFACE_LINE_def includes_str_Cons)
  with free candidate_filter_and_no_signature [of "''.class public Lfoo;''" "''Windows_NT''"]
  show ?thesis by blast
qed

text \<open>
  C2. What is put in the place of a matched method depends on the signature alone. For
  \<open>checkClientTrusted\<close> and \<open>checkServerTrusted\<close>, with or without \<open>final\<close>, the
  rewritten method starts with its opening line, the marker comment, \<open>.locals 0\<close> and
  \<open>return-void\<close>, followed by an empty line, whatever the old body was. For
  \<open>getAcceptedIssuers\<close> it starts with the opening line, the marker comment,
  \<open>.locals 1\<close>, the construction of an array of length zero of X509Certificate and
  \<open>return-object v0\<close>, followed by an empty line.
\<close>

theorem replacement_policy:
  assumes "fin = [] \<or> fin = FINAL"
  shows "(signature = SIG_CLIENT \<or> signature = SIG_SERVER \<longrightarrow>
            take 5 (split_lines (patch_method (METHOD_PUBLIC @ fin @ signature) body END_METHOD))
            = [METHOD_PUBLIC @ fin @ signature,
               ''    # inserted by apk-mitm to disable certificate pinning'',
               ''    .locals 0'',
               ''    return-void'',
               ''''])
       \<and> take 7 (split_lines (patch_method (METHOD_PUBLIC @ fin @ SIG_ISSUERS) body END_METHOD))
            = [METHOD_PUBLIC @ fin @ SIG_ISSUERS,
               ''    # inserted by apk-mitm to disable certificate pinning'',
               ''    .locals 1'',
               ''    const/4 v0, 0x0'',
               ''    new-array v0, v0, [Ljava/security/cert/X509Certificate;'',
               ''    return-object v0'',
               '''']"
proof (intro conjI impI)
  assume sig: "signature = SIG_CLIENT \<or> signature = SIG_SERVER"
  then have mem: "signature \<in> set METHOD_SIGNATURES"
    by (auto simp: METHOD_SIGNATURES_def)
  have "LF \<notin> set END_METHOD" by (simp add: END_METHOD_def)
  from patch_method_lines [OF LF_notin_header [OF assms mem] this]
  show "take 5 (split_lines (patch_method (METHOD_PUBLIC @ fin @ signature) body END_METHOD))
            = [METHOD_PUBLIC @ fin @ signature,
               ''    # inserted by apk-mitm to disable certificate pinning'',
               ''    .locals 0'',
               ''    return-void'',
               '''']"
    by (simp add: trimEnd_header [OF mem] inserted_lines_void [OF assms sig] trimEnd_literals)
next
  have mem: "SIG_ISSUERS \<in> set METHOD_SIGNATURES"
    by (simp add: METHOD_SIGNATURES_def)
  have "LF \<notin> set END_METHOD" by (simp add: END_METHOD_def)
  from patch_method_lines [OF LF_notin_header [OF assms mem] this]
  show "take 7 (split_lines (patch_method (METHOD_PUBLIC @ fin @ SIG_ISSUERS) body END_METHOD))
            = [METHOD_PUBLIC @ fin @ SIG_ISSUERS,
               ''    # inserted by apk-mitm to disable certificate pinning'',
               ''    .locals 1'',
               ''    const/4 v0, 0x0'',
               ''    new-array v0, v0, [Ljava/security/cert/X509Certificate;'',
               ''    return-object v0'',
               '''']"
    by (simp add: trimEnd_header [OF mem] inserted_lines_array [OF assms] trimEnd_literals)
qed

theorem replacement_policy_witness:
  "take 5 (split_lines (patch_method (METHOD_PUBLIC @ FINAL @ SIG_SERVER) ''    throw v0'' END_METHOD))
     = [METHOD_PUBLIC @ FINAL @ SIG_SERVER,
        ''    # inserted by apk-mitm to disable certificate pinning'',
        ''    .locals 0'',
        ''    return-void'',
        '''']
   \<and> take 7 (split_lines (patch_method (METHOD_PUBLIC @ FINAL @ SIG_ISSUERS) ''    throw v0'' END_METHOD))
     = [METHOD_PUBLIC @ FINAL @ SIG_ISSUERS,
        ''    # inserted by apk-mitm to disable certificate pinning'',
        ''    .locals 1'',
        ''    const/4 v0, 0x0'',
        ''    new-array v0, v0, [Ljava/security/cert/X509Certificate;'',
        ''    return-object v0'',
        '''']"
  using replacement_policy [of FINAL SIG_SERVER "''    throw v0''"] by simp

text \<open>
  C4. The flag is false exactly when the text after the three patterns is identical to
  the text they were run on, which is the content after the conversion of line endings
  (the content itself on a host that is not Windows). When the flag is false the file
  system is left as it was: a run that answers false has written nothing.
\<close>

theorem changed_flag_and_write:
  "(changed os_type content \<longleftrightarrow>
      apply_patterns METHOD_SIGNATURES (normalize_line_endings os_type content) \<noteq> normalize_line_endings os_type content)
   \<and> (files fs filePath = Some content \<and> \<not> changed os_type content \<longrightarrow>
        processSmaliFile os_type fs filePath = Inr (False, fs))
   \<and> (processSmaliFile os_type fs filePath = Inr (False, fs') \<longrightarrow> fs' = fs)"
  using changed_iff processSmaliFile_False processSmaliFile_unchanged by blast

text \<open>
  The comparison is not with the content as read: on Windows a candidate whose lines end
  with a carriage return and a line feed, and in which no pattern matches, is reported
  unchanged although the text after the patterns differs from the content read.
\<close>

theorem changed_flag_counterexample:
  "isCandidate crlf_candidate
   \<and> \<not> changed ''Windows_NT'' crlf_candidate
   \<and> apply_patterns METHOD_SIGNATURES (normalize_line_endings ''Windows_NT'' crlf_candidate) \<noteq> crlf_candidate"
proof (intro conjI)
  show "isCandidate crlf_candidate"
    by (simp add: isCandidate_def crlf_candidate_def includes_str_iff) (metis append_Nil)
  show "\<not> changed ''Windows_NT'' crlf_candidate"
    by (rule crlf_candidate_unchanged)
  show "apply_patterns METHOD_SIGNATURES (normalize_line_endings ''Windows_NT'' crlf_candidate) \<noteq> crlf_candidate"
    unfolding crlf_candidate_same by (simp add: crlf_candidate_def)
qed

theorem changed_flag_and_write_witness:
  "files \<lparr>files = [''a.smali'' \<mapsto> crlf_candidate], readonly = []\<rparr> ''a.smali'' = Some crlf_candidate
   \<and> \<not> changed ''Windows_NT'' crlf_candidate
   \<and> processSmaliFile ''Windows_NT'' \<lparr>files = [''a.smali'' \<mapsto> crlf_candidate], readonly = []\<rparr> ''a.smali''
       = Inr (False, \<lparr>files = [''a.smali'' \<mapsto> crlf_candidate], readonly = []\<rparr>)"
proof -
  note crlf_candidate_unchanged
  with changed_flag_and_write [of "''Windows_NT''" crlf_candidate
      "\<lparr>files = [''a.smali'' \<mapsto> crlf_candidate], readonly = []\<rparr>" "''a.smali''"]
  show ?thesis by simp
qed

text \<open>
  C3. A content whose line endings are carriage return and line feed throughout is
  changed on Windows only: there the carriage returns are taken out before the patterns
  run and every line feed of the result is replaced by a carriage return and a line feed,
  so the output has the same line endings throughout, and no carriage return or line feed
  on its own. On another host no pattern matches in such a content, since each pattern
  wants a line feed right after the signature. What decides the conversion is
  \<open>os.type()\<close>, not the content.
\<close>

theorem crlf_files_stay_crlf:
  assumes "crlf_only content" and "changed os_type content"
  shows "os_type = ''Windows_NT''
    \<and> content_after os_type content
        = lf_to_crlf (apply_patterns METHOD_SIGNATURES (crlf_to_lf content))
    \<and> crlf_only (content_after os_type content)"
proof -
  from assms(1) have weak: "crlf_throughout content" by (rule crlf_only_throughout)
  have win: "os_type = ''Windows_NT''"
  proof (rule ccontr)
    assume other: "os_type \<noteq> ''Windows_NT''"
    have "apply_patterns METHOD_SIGNATURES content = content"
    proof (rule apply_patterns_same)
      fix signature
      assume "signature \<in> set METHOD_SIGNATURES"
      with weak show "replace_pattern signature content = content"
        by (intro replace_pattern_no_match) (rule crlf_throughout_no_match)
    qed
    with other have "patch os_type content = None"
      by (simp add: patch_def normalize_line_endings_def)
    with assms(2) show False by (simp add: changed_def)
  qed
  from assms(2) win have after: "content_after os_type content
        = lf_to_crlf (apply_patterns METHOD_SIGNATURES (crlf_to_lf content))"
    by (auto simp: changed_def content_after_def patch_def normalize_line_endings_def Let_def
        split: if_splits)
  from assms(1) have "CR \<notin> set (apply_patterns METHOD_SIGNATURES (crlf_to_lf content))"
    by (intro apply_patterns_no_CR crlf_to_lf_no_CR)
  then have "crlf_only (lf_to_crlf (apply_patterns METHOD_SIGNATURES (crlf_to_lf content)))"
    by (rule lf_to_crlf_crlf_only)
  with win after show ?thesis by simp
qed

theorem crlf_files_stay_crlf_witness:
  "crlf_only crlf_class
   \<and> changed ''Windows_NT'' crlf_class
   \<and> crlf_only (content_after ''Windows_NT'' crlf_class)"
proof -
  have "crlf_only crlf_class" by code_simp
  moreover have "changed ''Windows_NT'' crlf_class" by code_simp
  ultimately show ?thesis
    using crlf_files_stay_crlf [of crlf_class "''Windows_NT''"] by blast
qed

text \<open>
  C6. A declaration whose opening line is \<open>.method public\<close>, with or without \<open>final\<close>,
  and one of the three signatures, followed by a line feed, a body that is not empty and
  in which no later line starts with \<open>.end method\<close>, a line feed and \<open>.end method\<close>:
  the pattern of that signature matches at the opening line and captures the opening line,
  the whole body and the terminator, whatever else the body holds and however long it is.
  When the text before the declaration consists of whole lines and does not write an
  opening line of the signature, the global replacement reaches the declaration and
  rewrites it.
\<close>

theorem structural_match:
  assumes "signature \<in> set METHOD_SIGNATURES" and "fin = [] \<or> fin = FINAL"
    and "body \<noteq> []" and "\<not> includes_str body (LF # END_METHOD)"
  shows "match_at signature
           ((METHOD_PUBLIC @ fin @ signature) @ LF # body @ LF # END_METHOD @ rest)
         = Some (METHOD_PUBLIC @ fin @ signature, body, END_METHOD, rest)
    \<and> (no_header signature pre \<and> whole_lines pre \<longrightarrow>
         replace_pattern signature
           (pre @ (METHOD_PUBLIC @ fin @ signature) @ LF # body @ LF # END_METHOD @ rest)
         = pre @ patch_method (METHOD_PUBLIC @ fin @ signature) body END_METHOD
             @ replace_pattern signature rest)"
proof (intro conjI impI)
  show m: "match_at signature
           ((METHOD_PUBLIC @ fin @ signature) @ LF # body @ LF # END_METHOD @ rest)
         = Some (METHOD_PUBLIC @ fin @ signature, body, END_METHOD, rest)"
    by (rule match_at_found [OF assms])
  assume "no_header signature pre \<and> whole_lines pre"
  then have "replace_pattern signature
           (pre @ (METHOD_PUBLIC @ fin @ signature) @ LF # body @ LF # END_METHOD @ rest)
         = pre @ replace_pattern signature
             ((METHOD_PUBLIC @ fin @ signature) @ LF # body @ LF # END_METHOD @ rest)"
    by (intro replace_pattern_gap assms(1)) simp_all
  then show "replace_pattern signature
           (pre @ (METHOD_PUBLIC @ fin @ signature) @ LF # body @ LF # END_METHOD @ rest)
         = pre @ patch_method (METHOD_PUBLIC @ fin @ signature) body END_METHOD
             @ replace_pattern signature rest"
    by (simp only: replace_pattern_match [OF m])
qed

theorem structural_match_witness:
  "SIG_SERVER \<in> set METHOD_SIGNATURES
   \<and> ''    throw v0'' \<noteq> []
   \<and> \<not> includes_str ''    throw v0'' (LF # END_METHOD)
   \<and> no_header SIG_SERVER (''# direct methods'' @ [LF])
   \<and> whole_lines (''# direct methods'' @ [LF])
   \<and> match_at SIG_SERVER
        ((METHOD_PUBLIC @ FINAL @ SIG_SERVER) @ LF # ''    throw v0'' @ LF # END_METHOD @ [LF])
      = Some (METHOD_PUBLIC @ FINAL @ SIG_SERVER, ''    throw v0'', END_METHOD, [LF])
   \<and> replace_pattern SIG_SERVER
        ((''# direct methods'' @ [LF]) @ (METHOD_PUBLIC @ FINAL @ SIG_SERVER)
           @ LF # ''    throw v0'' @ LF # END_METHOD @ [LF])
      = (''# direct methods'' @ [LF])
          @ patch_method (METHOD_PUBLIC @ FINAL @ SIG_SERVER) ''    throw v0'' END_METHOD
          @ replace_pattern SIG_SERVER [LF]"
proof -
  have 1: "SIG_SERVER \<in> set METHOD_SIGNATURES" by (simp add: METHOD_SIGNATURES_def)
  have 2: "\<not> includes_str ''    throw v0'' (LF # END_METHOD)"
    by (simp add: includes_str_Cons END_METHOD_def)
  have 3: "no_header SIG_SERVER (''# direct methods'' @ [LF])"
    by (simp add: no_header_def includes_str_Cons METHOD_PUBLIC_def)
  have 4: "whole_lines (''# direct methods'' @ [LF])" by (simp add: whole_lines_def)
  from structural_match [OF 1 disjI2 [OF refl] _ 2,
      of "[LF]" "''# direct methods'' @ [LF]"] 1 2 3 4
  show ?thesis by simp
qed

text \<open>
  The body must hold at least one character: the pattern wants one or more characters
  between the line feed after the opening line and the line feed before
  \<open>.end method\<close>. A declaration whose only body line is empty is not matched, and the
  text is left as it is. And the body ends where \<open>.end method\<close> first starts a line,
  whatever follows on that line: with a body line \<open>.end methods\<close> the capture stops
  before it, and the match ends inside that line.
\<close>

theorem body_limits_counterexample:
  "match_at SIG_CLIENT ((METHOD_PUBLIC @ SIG_CLIENT) @ LF # [] @ LF # END_METHOD @ [LF]) = None
   \<and> replace_pattern SIG_CLIENT ((METHOD_PUBLIC @ SIG_CLIENT) @ LF # [] @ LF # END_METHOD @ [LF])
       = (METHOD_PUBLIC @ SIG_CLIENT) @ LF # [] @ LF # END_METHOD @ [LF]
   \<and> match_at SIG_CLIENT
        ((METHOD_PUBLIC @ SIG_CLIENT) @ LF # (''nop'' @ [LF] @ ''.end methods'' @ [LF] @ ''nop'')
           @ LF # END_METHOD @ [LF])
       = Some (METHOD_PUBLIC @ SIG_CLIENT, ''nop'', END_METHOD,
               ''s'' @ [LF] @ ''nop'' @ LF # END_METHOD @ [LF])"
  by code_simp

text \<open>
  C10. The replacement of one signature is global: a text made of any number of separate
  declarations of that signature, each after a stretch of whole lines that does not write
  an opening line of the signature, and each with a body as in C6, has every one of them
  rewritten in the one pass, and the pass goes on over the text after the last.
\<close>

theorem every_occurrence_rewritten:
  assumes "signature \<in> set METHOD_SIGNATURES"
    and "list_all (separate_declaration signature) decls"
  shows "replace_pattern signature (concat (map declaration_text decls) @ rest)
           = concat (map declaration_patched decls) @ replace_pattern signature rest"
  using assms(2)
proof (induction decls)
  case Nil
  then show ?case by simp
next
  case (Cons d ds)
  then have d: "separate_declaration signature d"
    and ds: "list_all (separate_declaration signature) ds" by simp_all
  have "replace_pattern signature (concat (map declaration_text (d # ds)) @ rest)
      = replace_pattern signature (declaration_text d @ concat (map declaration_text ds) @ rest)"
    by simp
  also have "\<dots> = declaration_patched d
      @ replace_pattern signature (concat (map declaration_text ds) @ rest)"
    by (rule replace_pattern_declaration [OF assms(1) d])
  finally show ?case using Cons.IH [OF ds] by simp
qed

theorem every_occurrence_rewritten_witness:
  "SIG_CLIENT \<in> set METHOD_SIGNATURES
   \<and> list_all (separate_declaration SIG_CLIENT) two_declarations
   \<and> replace_pattern SIG_CLIENT (concat (map declaration_text two_declarations) @ [LF])
       = concat (map declaration_patched two_declarations) @ replace_pattern SIG_CLIENT [LF]"
proof -
  have 1: "SIG_CLIENT \<in> set METHOD_SIGNATURES" by (simp add: METHOD_SIGNATURES_def)
  have 2: "list_all (separate_declaration SIG_CLIENT) two_declarations"
    by code_simp
  from every_occurrence_rewritten [OF 1 2] 1 2 show ?thesis by blast
qed

text \<open>
  C5. Where the pattern of a signature matches, the match is the opening line, the body
  and the terminator, and it is replaced by \<open>patch_method\<close> of the three. The lines of
  the replacement are: the opening line as it was; the inserted lines, indented; then, for
  every line of the old body in the old order, that line without its first four spaces
  (when it had them), behind \<open>    # \<close>, with the white space at its end trimmed; and last
  the terminator as it was.
\<close>

theorem body_preserved:
  assumes "signature \<in> set METHOD_SIGNATURES"
    and "match_at signature s = Some (openingLine, body, closingLine, rest)"
  shows "s = openingLine @ LF # body @ LF # closingLine @ rest
    \<and> replace_pattern signature s
        = patch_method openingLine body closingLine @ replace_pattern signature rest
    \<and> split_lines (patch_method openingLine body closingLine)
        = openingLine
          # map (\<lambda>line. trimEnd (''    '' @ line)) (inserted_lines openingLine)
          @ map (\<lambda>line. trimEnd (''    # '' @ strip_indent line)) (split_lines body)
          @ [closingLine]"
proof -
  from match_at_Some [OF assms(2)] obtain fin where fin: "fin = [] \<or> fin = FINAL"
    and h: "openingLine = METHOD_PUBLIC @ fin @ signature"
    and s: "s = openingLine @ LF # body @ LF # END_METHOD @ rest"
    and cl: "closingLine = END_METHOD" by auto
  have "LF \<notin> set openingLine" unfolding h by (rule LF_notin_header [OF fin assms(1)])
  moreover have "LF \<notin> set closingLine" unfolding cl by (rule LF_notin_END_METHOD)
  ultimately have "split_lines (patch_method openingLine body closingLine)
        = trimEnd openingLine
          # map (\<lambda>line. trimEnd (''    '' @ line)) (inserted_lines openingLine)
          @ map (\<lambda>line. trimEnd (''    # '' @ strip_indent line)) (split_lines body)
          @ [trimEnd closingLine]"
    by (rule patch_method_lines)
  moreover have "trimEnd openingLine = openingLine"
    unfolding h by (rule trimEnd_header [OF assms(1)])
  moreover have "trimEnd closingLine = closingLine"
    unfolding cl by (rule trimEnd_END_METHOD)
  ultimately show ?thesis
    using s cl replace_pattern_match [OF assms(2)] by simp
qed

theorem body_preserved_witness:
  "SIG_SERVER \<in> set METHOD_SIGNATURES
   \<and> match_at SIG_SERVER pinned_method
       = Some (METHOD_PUBLIC @ SIG_SERVER,
               ''    .locals 1'' @ [LF] @ ''    throw v0  '' @ [LF] @ ''  nop'',
               END_METHOD, [LF])
   \<and> split_lines (patch_method (METHOD_PUBLIC @ SIG_SERVER)
        (''    .locals 1'' @ [LF] @ ''    throw v0  '' @ [LF] @ ''  nop'') END_METHOD)
      = (METHOD_PUBLIC @ SIG_SERVER)
          # map (\<lambda>line. trimEnd (''    '' @ line)) (inserted_lines (METHOD_PUBLIC @ SIG_SERVER))
          @ [''    # .locals 1'', ''    # throw v0'', ''    #   nop'']
          @ [END_METHOD]"
proof -
  have 1: "SIG_SERVER \<in> set METHOD_SIGNATURES" by (simp add: METHOD_SIGNATURES_def)
  have 2: "match_at SIG_SERVER pinned_method
       = Some (METHOD_PUBLIC @ SIG_SERVER,
               ''    .locals 1'' @ [LF] @ ''    throw v0  '' @ [LF] @ ''  nop'',
               END_METHOD, [LF])"
    by code_simp
  have 3: "map (\<lambda>line. trimEnd (''    # '' @ strip_indent line))
             (split_lines (''    .locals 1'' @ [LF] @ ''    throw v0  '' @ [LF] @ ''  nop''))
           = [''    # .locals 1'', ''    # throw v0'', ''    #   nop'']"
    by code_simp
  from body_preserved [OF 1 2] 1 2 3 show ?thesis by simp
qed

text \<open>
  C9. A target method header after which no line starts with \<open>.end method\<close> is not
  matched by its pattern, whatever comes before it. When this is so for every opening
  line of a target method in the text, none of the three patterns matches anywhere, the
  transform gives no new content and reports no change, and \<open>processSmaliFile\<close> returns
  false without an error and without touching the file system. The text meant is the one
  the patterns are run on, after the conversion of line endings on Windows.
\<close>

theorem unterminated_header_unpatched:
  "(signature \<in> set METHOD_SIGNATURES \<and> (fin = [] \<or> fin = FINAL)
      \<and> \<not> includes_str (LF # rest) (LF # END_METHOD)
      \<longrightarrow> match_at signature ((METHOD_PUBLIC @ fin @ signature) @ LF # rest) = None)
   \<and> (list_all (\<lambda>signature. \<not> header_terminated signature
           (normalize_line_endings os_type content)) METHOD_SIGNATURES
      \<longrightarrow> (\<forall>signature s'. signature \<in> set METHOD_SIGNATURES
              \<and> suffix s' (normalize_line_endings os_type content)
              \<longrightarrow> match_at signature s' = None)
          \<and> patch os_type content = None
          \<and> \<not> changed os_type content
          \<and> (files fs filePath = Some content
               \<longrightarrow> processSmaliFile os_type fs filePath = Inr (False, fs)))"
proof (intro conjI impI)
  assume "signature \<in> set METHOD_SIGNATURES \<and> (fin = [] \<or> fin = FINAL)
      \<and> \<not> includes_str (LF # rest) (LF # END_METHOD)"
  then show "match_at signature ((METHOD_PUBLIC @ fin @ signature) @ LF # rest) = None"
    by (intro unterminated_no_match) simp_all
next
  assume a: "list_all (\<lambda>signature. \<not> header_terminated signature
           (normalize_line_endings os_type content)) METHOD_SIGNATURES"
  from all_unterminated_unchanged [OF a]
  show "\<forall>signature s'. signature \<in> set METHOD_SIGNATURES
              \<and> suffix s' (normalize_line_endings os_type content)
              \<longrightarrow> match_at signature s' = None"
    and "patch os_type content = None" and "\<not> changed os_type content"
    by blast+
  assume "files fs filePath = Some content"
  with all_unterminated_unchanged [OF a, of fs filePath]
  show "processSmaliFile os_type fs filePath = Inr (False, fs)" by blast
qed

theorem unterminated_header_unpatched_witness:
  "SIG_CLIENT \<in> set METHOD_SIGNATURES
   \<and> \<not> includes_str (LF # ''    .locals 1'' @ [LF]) (LF # END_METHOD)
   \<and> match_at SIG_CLIENT ((METHOD_PUBLIC @ [] @ SIG_CLIENT) @ LF # ''    .locals 1'' @ [LF]) = None
   \<and> list_all (\<lambda>signature. \<not> header_terminated signature
        (normalize_line_endings ''Linux'' truncated_class)) METHOD_SIGNATURES
   \<and> isCandidate truncated_class
   \<and> patch ''Linux'' truncated_class = None
   \<and> processSmaliFile ''Linux'' \<lparr>files = [''a.smali'' \<mapsto> truncated_class], readonly = []\<rparr> ''a.smali''
       = Inr (False, \<lparr>files = [''a.smali'' \<mapsto> truncated_class], readonly = []\<rparr>)"
proof -
  have 0: "SIG_CLIENT \<in> set METHOD_SIGNATURES" by (simp add: METHOD_SIGNATURES_def)
  have 1: "\<not> includes_str (LF # ''    .locals 1'' @ [LF]) (LF # END_METHOD)" by code_simp
  have 2: "list_all (\<lambda>signature. \<not> header_terminated signature
      (normalize_line_endings ''Linux'' truncated_class)) METHOD_SIGNATURES"
    by code_simp
  have 3: "isCandidate truncated_class" by code_simp
  from unterminated_header_unpatched [of SIG_CLIENT "[]" "''    .locals 1'' @ [LF]"
      "''Linux''" truncated_class
      "\<lparr>files = [''a.smali'' \<mapsto> truncated_class], readonly = []\<rparr>" "''a.smali''"]
    0 1 2 3
  show ?thesis by simp
qed

text \<open>
  The file is not always left as it was: a candidate with a complete
  \<open>checkClientTrusted\<close> before the unterminated header of \<open>checkServerTrusted\<close> is
  changed, by the pattern of the complete method. The unterminated header itself is not
  matched.
\<close>

theorem unterminated_header_counterexample:
  "\<not> includes_str (LF # ''    .locals 1'' @ [LF]) (LF # END_METHOD)
   \<and> match_at SIG_SERVER ((METHOD_PUBLIC @ SIG_SERVER) @ LF # ''    .locals 1'' @ [LF]) = None
   \<and> isCandidate half_truncated_class
   \<and> changed ''Linux'' half_truncated_class"
  by code_simp

text \<open>
  C1. Running the transform on what a first run left in the file reports a change exactly
  when the first run reported one. A run that changed nothing leaves the content as it
  was, and so does the next. A run that rewrote a method leaves the opening line, a body
  that is not empty and the terminator in place: the pattern, which accepts any body,
  matches there again, and the second run wraps the rewritten method once more.
\<close>

theorem second_run_changes_again:
  "changed os_type (content_after os_type content) = changed os_type content"
  by (rule second_run)

theorem second_run_changes_again_witness:
  "changed ''Windows_NT'' (content_after ''Windows_NT'' crlf_class) = changed ''Windows_NT'' crlf_class"
  by (rule second_run_changes_again)

text \<open>
  The transform is not idempotent: on a candidate with one pinned method the first run
  reports a change, and the run on its output reports a change again.
\<close>

theorem idempotence_counterexample:
  "isCandidate pinned_class
   \<and> changed ''Linux'' pinned_class
   \<and> changed ''Linux'' (content_after ''Linux'' pinned_class)"
proof -
  have 1: "isCandidate pinned_class" by code_simp
  have 2: "changed ''Linux'' pinned_class" by code_simp
  from 2 have "changed ''Linux'' (content_after ''Linux'' pinned_class)"
    by (simp only: second_run)
  with 1 2 show ?thesis by simp
qed

text \<open>
  C7. In a well-formed class the patterns are independent of each other. Run in any
  order, and for any choice of the three signatures, each pattern rewrites the methods
  of its own signature and nothing else: the result is the text before the methods, and
  then every method, rewritten when its signature is among the patterns run and as it was
  otherwise, with the lines after it. So two lists of the same signatures in different
  orders give the same text, and with all three signatures all the methods of one file
  are rewritten.
\<close>

theorem patches_compose_in_any_order:
  assumes "well_formed_class pre methods"
    and "distinct signatures" "set signatures \<subseteq> set METHOD_SIGNATURES"
    and "distinct signatures'" "set signatures' = set signatures"
  shows "apply_patterns signatures (class_text pre methods)
           = pre @ concat (map (method_after signatures) methods)
    \<and> apply_patterns signatures' (class_text pre methods)
           = apply_patterns signatures (class_text pre methods)"
proof -
  have start: "class_text pre methods = pre @ concat (map (method_after []) methods)"
    by (simp add: class_text_def method_after_Nil_fun)
  from assms(2,3) apply_patterns_class [OF assms(1), of signatures "[]"]
  have a: "apply_patterns signatures (class_text pre methods)
      = pre @ concat (map (method_after signatures) methods)"
    by (simp add: start)
  from assms(3,4,5) apply_patterns_class [OF assms(1), of signatures' "[]"]
  have "apply_patterns signatures' (class_text pre methods)
      = pre @ concat (map (method_after signatures') methods)"
    by (simp add: start)
  also have "map (method_after signatures') methods = map (method_after signatures) methods"
    by (simp add: method_after_set [OF assms(5)])
  finally show ?thesis using a by simp
qed

theorem patches_compose_in_any_order_witness:
  "well_formed_class trust_manager_pre trust_manager_methods
   \<and> distinct METHOD_SIGNATURES
   \<and> distinct [SIG_ISSUERS, SIG_SERVER, SIG_CLIENT]
   \<and> set [SIG_ISSUERS, SIG_SERVER, SIG_CLIENT] = set METHOD_SIGNATURES
   \<and> apply_patterns METHOD_SIGNATURES (class_text trust_manager_pre trust_manager_methods)
       = trust_manager_pre @ concat (map method_patched trust_manager_methods)
   \<and> apply_patterns [SIG_ISSUERS, SIG_SERVER, SIG_CLIENT]
         (class_text trust_manager_pre trust_manager_methods)
       = apply_patterns METHOD_SIGNATURES (class_text trust_manager_pre trust_manager_methods)"
proof -
  have 1: "well_formed_class trust_manager_pre trust_manager_methods" by code_simp
  have 2: "distinct METHOD_SIGNATURES"
    by (simp add: METHOD_SIGNATURES_def signatures_distinct)
  have 3: "distinct [SIG_ISSUERS, SIG_SERVER, SIG_CLIENT]"
    using signatures_distinct by auto
  have 4: "set [SIG_ISSUERS, SIG_SERVER, SIG_CLIENT] = set METHOD_SIGNATURES"
    by (auto simp: METHOD_SIGNATURES_def)
  have 5: "map (method_after METHOD_SIGNATURES) trust_manager_methods
      = map method_patched trust_manager_methods"
    by (simp add: trust_manager_methods_def METHOD_SIGNATURES_def)
  from patches_compose_in_any_order [OF 1 2 subset_refl 3 4] 1 2 3 4 5
  show ?thesis by simp
qed

end
